theory Spec2Isabelle
  imports Main "HOL-Library.Word" "HOL-Library.Signed_Division"
begin

section \<open>The benchmark manager of bench/manager.go\<close>

text \<open>
  The file bench/manager.go holds the orchestration engine of the load generator: the
  score counter, the error budget, the registry of investors, the prefetch loop for bank
  identities and the scheduling tick \<open>Next\<close>. The definitions below follow the Go
  functions one by one and keep their names.

  Go's \<open>int64\<close>, \<open>int\<close> and \<open>uint\<close> are 64-bit words (the benchmark is built for amd64).
  Addition, subtraction and multiplication wrap; \<open>/\<close> truncates towards zero, which is
  \<open>sdiv\<close> on the signed reading of the word.
\<close>

type_synonym int64 = "64 word"
type_synonym uint = "64 word"

subsection \<open>Constants of the package\<close>

text \<open>
  \<open>AllowErrorMin\<close>, \<open>AllowErrorMax\<close>, \<open>AddUsersOnShare\<close>, \<open>AddUsersOnNatural\<close>,
  \<open>DefaultWorkers\<close> and \<open>BruteForceWorkers\<close> are untyped integer constants declared in
  another file of the package. They are parameters of the model.
\<close>

record config =
  AllowErrorMin :: int
  AllowErrorMax :: int
  AddUsersOnShare :: int
  AddUsersOnNatural :: int
  DefaultWorkers :: int
  BruteForceWorkers :: int

subsection \<open>Investors, tasks and the manager\<close>

record client =
  clBankID :: string
  clName :: string
  clPassword :: string

record trade =
  Amount :: int64
  Price :: int64

text \<open>
  The two implementations of the \<open>Investor\<close> interface are built by \<open>NewRandomInvestor\<close>
  and \<open>NewBruteForceInvestor\<close>. The constructor arguments are kept as they are passed, in
  the order of the call.
\<close>

datatype strategy =
  RandomInvestor int64 int64 int64 int64
| BruteForceInvestor

text \<open>
  An investor is seen by the manager through the methods of the interface only. The
  record holds what each query returns during one tick; what the methods do to the
  investor itself is in another file of the package.
\<close>

record investor =
  ivClient :: client
  ivStrategy :: strategy
  ivCredit :: int64
  ivIsStarted :: bool
  ivIsStartCompleted :: bool
  ivIsRetired :: bool
  ivIsSignin :: bool
  ivHasNext :: bool
  ivSharedTrades :: "trade list"
  ivLatestTradePrice :: int64

datatype task =
  StartTask investor
| NextTask investor
| ExecTask investor

datatype bench_error =
  ErrOverLimit
| ErrNoActiveInvestors
| ErrNewClient string
| PanicIndexOutOfRange

datatype logmsg =
  LogAddByShare int
| LogNaturalGrowth

record manager =
  investors :: "investor list"
  score :: int64
  errors :: "string list"
  level :: uint
  totalivst :: "64 word"
  overError :: bool
  logged :: "logmsg list"
  closedInvestors :: "investor list"
  bankCredits :: "(string \<times> int64) list"
  newClientCalls :: nat

text \<open>
  \<open>logged\<close> is the output of \<open>c.Logger()\<close>, \<open>closedInvestors\<close> the investors on which
  \<open>Close\<close> has been called, \<open>bankCredits\<close> the calls of \<open>c.isubank.AddCredit\<close>, and
  \<open>newClientCalls\<close> the number of calls of \<open>c.newClient\<close> so far: the effects of the
  manager on its collaborators, in the order in which they happen.
\<close>

definition NewManager :: manager where
  "NewManager = \<lparr> investors = [], score = 0, errors = [], level = 0, totalivst = 0,
     overError = False, logged = [], closedInvestors = [], bankCredits = [],
     newClientCalls = 0 \<rparr>"

subsection \<open>Score and error budget\<close>

definition AddScore :: "int64 \<Rightarrow> manager \<Rightarrow> manager" where
  "AddScore d c = c\<lparr>score := score c + d\<rparr>"

definition GetScore :: "manager \<Rightarrow> int64" where
  "GetScore c = score c"

definition ErrorCount :: "manager \<Rightarrow> nat" where
  "ErrorCount c = length (errors c)"

text \<open>Go's \<open>a / b\<close> on \<open>int64\<close> with a constant divisor \<open>b\<close>.\<close>

definition quo64 :: "int64 \<Rightarrow> int \<Rightarrow> int64" where
  "quo64 a b = word_of_int (sint a sdiv b)"

text \<open>
  The limit computed in \<open>AppendError\<close>: \<open>GetScore() / 20\<close>, raised to \<open>AllowErrorMin\<close>
  when below it, else lowered to \<open>AllowErrorMax\<close> when above it.
\<close>

definition errorLimit :: "config \<Rightarrow> manager \<Rightarrow> int" where
  "errorLimit cfg c =
     (let l = sint (quo64 (GetScore c) 20) in
      if l < AllowErrorMin cfg then AllowErrorMin cfg
      else if l > AllowErrorMax cfg then AllowErrorMax cfg
      else l)"

text \<open>
  \<open>AppendError\<close> takes \<open>None\<close> for Go's \<open>nil\<close> and the message of the error otherwise;
  it returns the error it hands back (\<open>None\<close> for \<open>nil\<close>) and the manager.
\<close>

definition AppendError :: "config \<Rightarrow> string option \<Rightarrow> manager \<Rightarrow> bench_error option \<times> manager" where
  "AppendError cfg e c =
     (case e of
        None \<Rightarrow> (None, c)
      | Some m \<Rightarrow>
          (let c1 = c\<lparr>errors := errors c @ [m]\<rparr>;
               ec = length (errors c1)
           in if errorLimit cfg c1 \<le> int ec
              then (Some ErrOverLimit, c1\<lparr>overError := True\<rparr>)
              else (None, c1)))"

definition TotalScore :: "config \<Rightarrow> manager \<Rightarrow> int64" where
  "TotalScore cfg c =
     (if overError c then 0
      else let s = GetScore c;
               demerit = quo64 s (AllowErrorMax cfg * 2)
           in s - demerit * of_nat (ErrorCount c))"

text \<open>The spec's \<open>clamp\<close>, for comparison with \<open>errorLimit\<close>.\<close>

definition clamp :: "int \<Rightarrow> int \<Rightarrow> int \<Rightarrow> int" where
  "clamp x lo hi = max lo (min hi x)"

text \<open>Calls of the score and error-budget interface, and a sequence of them.\<close>

datatype budget_call =
  CallAppendError "string option"
| CallAddScore int64

fun call :: "config \<Rightarrow> budget_call \<Rightarrow> manager \<Rightarrow> manager" where
  "call cfg (CallAppendError e) c = snd (AppendError cfg e c)"
| "call cfg (CallAddScore d) c = AddScore d c"

fun calls :: "config \<Rightarrow> budget_call list \<Rightarrow> manager \<Rightarrow> manager" where
  "calls cfg [] c = c"
| "calls cfg (x # xs) c = calls cfg xs (call cfg x c)"

subsection \<open>The registry of investors\<close>

definition AddInvestor :: "investor \<Rightarrow> manager \<Rightarrow> manager" where
  "AddInvestor i c = c\<lparr>investors := investors c @ [i], totalivst := totalivst c + 1\<rparr>"

text \<open>
  The loop of \<open>PurgeInvestor\<close>: \<open>cleared\<close> collects the investors that stay, \<open>closed\<close> the
  ones on which \<open>Close\<close> is called.
\<close>

fun purgeLoop :: "investor list \<Rightarrow> investor list \<Rightarrow> investor list \<Rightarrow> investor list \<times> investor list" where
  "purgeLoop [] cleared closed = (cleared, closed)"
| "purgeLoop (i # rest) cleared closed =
     (if ivIsRetired i then purgeLoop rest cleared (closed @ [i])
      else purgeLoop rest (cleared @ [i]) closed)"

definition PurgeInvestor :: "manager \<Rightarrow> manager" where
  "PurgeInvestor c =
     (let (cleared, closed) = purgeLoop (investors c) [] []
      in c\<lparr>investors := cleared, closedInvestors := closedInvestors c @ closed\<rparr>)"

definition GetLevel :: "manager \<Rightarrow> uint" where
  "GetLevel c = level c"

definition AllInvestors :: "manager \<Rightarrow> 64 word" where
  "AllInvestors c = totalivst c"

definition ActiveInvestors :: "manager \<Rightarrow> nat" where
  "ActiveInvestors c = length (investors c)"

subsection \<open>Building investors\<close>

text \<open>
  What the manager cannot decide itself comes from the environment: the result of the
  \<open>k\<close>-th call of \<open>c.newClient\<close> (a client built on the next prefetched bank identity, or
  the message of the error of \<open>NewClient\<close>), and the result of \<open>NewClient\<close> for one of the
  fixed accounts of the brute-force investors.
\<close>

record env =
  envNewClient :: "nat \<Rightarrow> string + client"
  envBruteClient :: "string \<Rightarrow> string + client"

definition newClient :: "env \<Rightarrow> manager \<Rightarrow> (string + client) \<times> manager" where
  "newClient ev c = (envNewClient ev (newClientCalls c), c\<lparr>newClientCalls := Suc (newClientCalls c)\<rparr>)"

text \<open>
  Modelled from the spec: \<open>NewRandomInvestor\<close> and \<open>NewBruteForceInvestor\<close> are declared
  in another file of the package. A new investor is created, not started, and has emitted
  nothing; \<open>NewRandomInvestor(cl, credit, isu, unitamount, price)\<close> seeds it with the
  currency credit \<open>credit\<close>, which is what \<open>Credit()\<close> returns, and with the inventory
  \<open>isu\<close>, and gives it the unit amount and the price of its orders. The call sites
  agree with this reading: what \<open>Credit()\<close> returns is sent to the bank when it is
  positive, and the first number is 100000 or a thousand times a price where the second
  one is 5 or a hundred times a unit amount.
\<close>

definition NewRandomInvestor :: "client \<Rightarrow> int64 \<Rightarrow> int64 \<Rightarrow> int64 \<Rightarrow> int64 \<Rightarrow> investor" where
  "NewRandomInvestor cl credit isu unitamount price =
     \<lparr> ivClient = cl, ivStrategy = RandomInvestor credit isu unitamount price,
       ivCredit = credit, ivIsStarted = False, ivIsStartCompleted = False,
       ivIsRetired = False, ivIsSignin = False, ivHasNext = False,
       ivSharedTrades = [], ivLatestTradePrice = 0 \<rparr>"

definition NewBruteForceInvestor :: "client \<Rightarrow> investor" where
  "NewBruteForceInvestor cl =
     \<lparr> ivClient = cl, ivStrategy = BruteForceInvestor,
       ivCredit = 0, ivIsStarted = False, ivIsStartCompleted = False,
       ivIsRetired = False, ivIsSignin = False, ivHasNext = False,
       ivSharedTrades = [], ivLatestTradePrice = 0 \<rparr>"

definition BankID :: "investor \<Rightarrow> string" where
  "BankID i = clBankID (ivClient i)"

text \<open>What a strategy was built with; a brute-force investor holds nothing.\<close>

fun seededCredit :: "strategy \<Rightarrow> int64" where
  "seededCredit (RandomInvestor credit isu unitamount price) = credit"
| "seededCredit BruteForceInvestor = 0"

fun seededIsu :: "strategy \<Rightarrow> int64" where
  "seededIsu (RandomInvestor credit isu unitamount price) = isu"
| "seededIsu BruteForceInvestor = 0"

fun unitAmount :: "strategy \<Rightarrow> int64" where
  "unitAmount (RandomInvestor credit isu unitamount price) = unitamount"
| "unitAmount BruteForceInvestor = 0"

fun unitPrice :: "strategy \<Rightarrow> int64" where
  "unitPrice (RandomInvestor credit isu unitamount price) = price"
| "unitPrice BruteForceInvestor = 0"

text \<open>\<open>if investor.Credit() > 0 { c.isubank.AddCredit(investor.BankID(), investor.Credit()) }\<close>\<close>

definition grantCredit :: "investor \<Rightarrow> manager \<Rightarrow> manager" where
  "grantCredit i c =
     (if 0 < sint (ivCredit i) then c\<lparr>bankCredits := bankCredits c @ [(BankID i, ivCredit i)]\<rparr>
      else c)"

subsection \<open>Start\<close>

text \<open>The first loop of \<open>Start\<close>, from the index \<open>i\<close> on; \<open>basePrice\<close> is 5105.\<close>

function startDefault :: "config \<Rightarrow> env \<Rightarrow> int \<Rightarrow> task list \<Rightarrow> manager \<Rightarrow> (bench_error + task list) \<times> manager" where
  "startDefault cfg ev i tasks c =
     (if i < DefaultWorkers cfg then
        (case newClient ev c of
           (Inl m, c1) \<Rightarrow> (Inl (ErrNewClient m), c1)
         | (Inr cl, c1) \<Rightarrow>
             (let inv = (if i mod 2 = 1
                         then NewRandomInvestor cl 100000 0 1 (word_of_int (5105 + i sdiv 2))
                         else NewRandomInvestor cl 0 5 1 (word_of_int (5105 + i sdiv 2)));
                  c2 = grantCredit inv c1;
                  c3 = AddInvestor inv c2
              in startDefault cfg ev (i + 1) (tasks @ [StartTask inv]) c3))
      else (Inr tasks, c))"
  by pat_completeness auto
termination
  by (relation "measure (\<lambda>(cfg, ev, i, tasks, c). nat (DefaultWorkers cfg - i))") auto

definition accounts :: "string list" where
  "accounts = [''5gf4syuu'', ''qgar5ge8dv4g'', ''gv3bsxzejbb4'', ''jybp5gysw279'']"

text \<open>The second loop of \<open>Start\<close>; \<open>accounts[i]\<close> panics beyond the four accounts.\<close>

function startBruteForce :: "config \<Rightarrow> env \<Rightarrow> int \<Rightarrow> task list \<Rightarrow> manager \<Rightarrow> (bench_error + task list) \<times> manager" where
  "startBruteForce cfg ev i tasks c =
     (if i < BruteForceWorkers cfg then
        (if 0 \<le> i \<and> i < int (length accounts) then
           (case envBruteClient ev (accounts ! nat i) of
              Inl m \<Rightarrow> (Inl (ErrNewClient m), c)
            | Inr cl \<Rightarrow>
                (let inv = NewBruteForceInvestor cl;
                     c1 = AddInvestor inv c
                 in startBruteForce cfg ev (i + 1) (tasks @ [StartTask inv]) c1))
         else (Inl PanicIndexOutOfRange, c))
      else (Inr tasks, c))"
  by pat_completeness auto
termination
  by (relation "measure (\<lambda>(cfg, ev, i, tasks, c). nat (BruteForceWorkers cfg - i))") auto

definition Start :: "config \<Rightarrow> env \<Rightarrow> manager \<Rightarrow> (bench_error + task list) \<times> manager" where
  "Start cfg ev c =
     (case startDefault cfg ev 0 [] c of
        (Inl e, c1) \<Rightarrow> (Inl e, c1)
      | (Inr tasks, c1) \<Rightarrow> startBruteForce cfg ev 0 tasks c1)"

subsection \<open>Next\<close>

text \<open>
  The closure \<open>addInvestors(num, unitamount, price)\<close> of \<open>Next\<close>, from the index \<open>i\<close> on.
  It appends to the variable \<open>tasks\<close> of \<open>Next\<close>, which is passed and returned.
\<close>

function addInvestorsFrom :: "env \<Rightarrow> int \<Rightarrow> int64 \<Rightarrow> int64 \<Rightarrow> int \<Rightarrow> task list \<Rightarrow> manager \<Rightarrow> (bench_error + task list) \<times> manager" where
  "addInvestorsFrom ev num unitamount price i tasks c =
     (if i < num then
        (case newClient ev c of
           (Inl m, c1) \<Rightarrow> (Inl (ErrNewClient m), c1)
         | (Inr cl, c1) \<Rightarrow>
             (let inv = (if i mod 2 = 1
                         then NewRandomInvestor cl (price * 1000) 0 unitamount (price - 2)
                         else NewRandomInvestor cl 0 (unitamount * 100) unitamount (price + 5))
              in addInvestorsFrom ev num unitamount price (i + 1) (tasks @ [ExecTask inv]) c1))
      else (Inr tasks, c))"
  by pat_completeness auto
termination
  by (relation "measure (\<lambda>(ev, num, unitamount, price, i, tasks, c). nat (num - i))") auto

definition addInvestors :: "env \<Rightarrow> int \<Rightarrow> int64 \<Rightarrow> int64 \<Rightarrow> task list \<Rightarrow> manager \<Rightarrow> (bench_error + task list) \<times> manager" where
  "addInvestors ev num unitamount price tasks c = addInvestorsFrom ev num unitamount price 0 tasks c"

text \<open>What the task built by \<open>taskworker.NewExecTask\<close> does when the worker runs it.\<close>

definition runExecTask :: "investor \<Rightarrow> manager \<Rightarrow> manager" where
  "runExecTask i c = AddInvestor i (grantCredit i c)"

text \<open>The loop that starts at most \<open>start\<close> investors in one tick.\<close>

fun startLoop :: "investor list \<Rightarrow> int \<Rightarrow> task list \<Rightarrow> task list" where
  "startLoop [] start tasks = tasks"
| "startLoop (i # rest) start tasks =
     (let (tasks1, start1) = (if \<not> ivIsStarted i then (tasks @ [StartTask i], start - 1)
                              else (tasks, start))
      in if start1 \<le> 0 then tasks1 else startLoop rest start1 tasks1)"

text \<open>The loop over \<open>investor.SharedTrades()\<close>.\<close>

fun tradesLoop :: "config \<Rightarrow> env \<Rightarrow> trade list \<Rightarrow> task list \<Rightarrow> int \<Rightarrow> manager \<Rightarrow> (bench_error + task list \<times> int) \<times> manager" where
  "tradesLoop cfg ev [] tasks addByShare c = (Inr (tasks, addByShare), c)"
| "tradesLoop cfg ev (t # rest) tasks addByShare c =
     (case addInvestors ev (AddUsersOnShare cfg) (Amount t) (Price t) tasks c of
        (Inl e, c1) \<Rightarrow> (Inl e, c1)
      | (Inr tasks1, c1) \<Rightarrow> tradesLoop cfg ev rest tasks1 (addByShare + 1) c1)"

text \<open>The loop over the investors that collects their work and their shared trades.\<close>

fun shareLoop :: "config \<Rightarrow> env \<Rightarrow> investor list \<Rightarrow> task list \<Rightarrow> int64 \<Rightarrow> int \<Rightarrow> manager \<Rightarrow> (bench_error + task list \<times> int64 \<times> int) \<times> manager" where
  "shareLoop cfg ev [] tasks latestTradePrice addByShare c =
     (Inr (tasks, latestTradePrice, addByShare), c)"
| "shareLoop cfg ev (i # rest) tasks latestTradePrice addByShare c =
     (if \<not> ivIsStartCompleted i then shareLoop cfg ev rest tasks latestTradePrice addByShare c
      else if ivIsRetired i then shareLoop cfg ev rest tasks latestTradePrice addByShare c
      else
        (let tasks1 = (if ivHasNext i then tasks @ [NextTask i] else tasks)
         in case tradesLoop cfg ev (ivSharedTrades i) tasks1 addByShare c of
              (Inl e, c1) \<Rightarrow> (Inl e, c1)
            | (Inr (tasks2, addByShare2), c1) \<Rightarrow>
                shareLoop cfg ev rest tasks2 (ivLatestTradePrice i) addByShare2 c1))"

text \<open>\<open>nextScore := (1 << c.level) * 100\<close>, an \<open>int\<close>.\<close>

definition nextScore :: "uint \<Rightarrow> int64" where
  "nextScore l = push_bit (unat l) 1 * 100"

text \<open>
  The loop of the natural growth. It has no bound of its own, so it is a partial
  function: \<open>None\<close> is a loop that never ends.
\<close>

partial_function (option) naturalLoop :: "config \<Rightarrow> env \<Rightarrow> int64 \<Rightarrow> int64 \<Rightarrow> task list \<Rightarrow> manager \<Rightarrow> ((bench_error + task list) \<times> manager) option" where
  "naturalLoop cfg ev sc latestTradePrice tasks c =
     (if sint sc < sint (nextScore (level c)) then Some (Inr tasks, c)
      else if AllowErrorMin cfg < int (ErrorCount c) then Some (Inr tasks, c)
      else
        (let c1 = c\<lparr>level := level c + 1\<rparr>;
             c2 = c1\<lparr>logged := logged c1 @ [LogNaturalGrowth]\<rparr>
         in case addInvestors ev (AddUsersOnNatural cfg) (level c2 + 1) latestTradePrice tasks c2 of
              (Inl e, c3) \<Rightarrow> Some (Inl e, c3)
            | (Inr tasks1, c3) \<Rightarrow> naturalLoop cfg ev sc latestTradePrice tasks1 c3))"

declare naturalLoop.simps [code]

definition Next :: "config \<Rightarrow> env \<Rightarrow> manager \<Rightarrow> ((bench_error + task list) \<times> manager) option" where
  "Next cfg ev c =
     (let c1 = PurgeInvestor c in
      if ActiveInvestors c1 = 0 then Some (Inl ErrNoActiveInvestors, c1)
      else
        (let tasks = startLoop (investors c1) 2 []
         in case shareLoop cfg ev (investors c1) tasks 5000 0 c1 of
              (Inl e, c2) \<Rightarrow> Some (Inl e, c2)
            | (Inr (tasks1, latestTradePrice, addByShare), c2) \<Rightarrow>
                (let c3 = (if addByShare > 0 then c2\<lparr>logged := logged c2 @ [LogAddByShare addByShare]\<rparr>
                           else c2)
                 in naturalLoop cfg ev (GetScore c3) latestTradePrice tasks1 c3)))"

subsection \<open>The prefetch loop for bank identities\<close>

text \<open>
  \<open>RunIDFetcher\<close> runs beside its consumers, so it is a small machine: the loop is at its
  \<open>select\<close>, or it holds an identity and waits at \<open>c.idlist <- id\<close>, or it has returned.
  \<open>idlist\<close> is the buffer of the channel (10 places) and \<open>printed\<close> the output of
  \<open>log.Printf\<close>.
\<close>

datatype fetcher =
  AtSelect
| Sending string
| Returned

record idqueue =
  idlist :: "string list"
  fetcherAt :: fetcher
  printed :: "string list"

definition NewIDQueue :: idqueue where
  "NewIDQueue = \<lparr> idlist = [], fetcherAt = AtSelect, printed = [] \<rparr>"

text \<open>
  One pass of the loop of \<open>RunIDFetcher\<close> from the \<open>select\<close> to the send: \<open>done\<close> says
  whether \<open>ctx.Done()\<close> is ready, \<open>id\<close> is the result of \<open>c.rand.ID()\<close> and \<open>err\<close> the
  result of \<open>c.isubank.NewBankID(id)\<close>.
\<close>

definition fetcherPass :: "bool \<Rightarrow> string \<Rightarrow> string option \<Rightarrow> idqueue \<Rightarrow> idqueue option" where
  "fetcherPass done ident err q =
     (if fetcherAt q \<noteq> AtSelect then None
      else if done then Some (q\<lparr>fetcherAt := Returned\<rparr>)
      else
        (let q1 = (case err of
                     None \<Rightarrow> q
                   | Some m \<Rightarrow> q\<lparr>printed := printed q @ [''new bankid failed. '' @ m]\<rparr>)
         in Some (q1\<lparr>fetcherAt := Sending ident\<rparr>)))"

text \<open>The send \<open>c.idlist <- id\<close> goes through when the buffer has a free place.\<close>

definition fetcherSend :: "idqueue \<Rightarrow> idqueue option" where
  "fetcherSend q =
     (case fetcherAt q of
        Sending ident \<Rightarrow>
          (if length (idlist q) < 10
           then Some (q\<lparr>idlist := idlist q @ [ident], fetcherAt := AtSelect\<rparr>)
           else None)
      | _ \<Rightarrow> None)"

text \<open>\<open>FetchNewID\<close> takes the oldest identity of the buffer; \<open>None\<close> is a blocked caller.\<close>

definition FetchNewID :: "idqueue \<Rightarrow> (string \<times> idqueue) option" where
  "FetchNewID q =
     (case idlist q of
        [] \<Rightarrow> None
      | ident # rest \<Rightarrow> Some (ident, q\<lparr>idlist := rest\<rparr>))"

datatype id_event =
  Pass bool string "string option"
| Send
| Fetch

text \<open>
  A schedule of the loop and its consumers; \<open>out\<close> collects what \<open>FetchNewID\<close> has
  returned. \<open>None\<close> is a schedule that cannot happen.
\<close>

fun RunIDFetcher :: "id_event list \<Rightarrow> idqueue \<Rightarrow> string list \<Rightarrow> (string list \<times> idqueue) option" where
  "RunIDFetcher [] q out = Some (out, q)"
| "RunIDFetcher (Pass done ident err # evs) q out =
     (case fetcherPass done ident err q of
        None \<Rightarrow> None
      | Some q1 \<Rightarrow> RunIDFetcher evs q1 out)"
| "RunIDFetcher (Send # evs) q out =
     (case fetcherSend q of
        None \<Rightarrow> None
      | Some q1 \<Rightarrow> RunIDFetcher evs q1 out)"
| "RunIDFetcher (Fetch # evs) q out =
     (case FetchNewID q of
        None \<Rightarrow> None
      | Some (ident, q1) \<Rightarrow> RunIDFetcher evs q1 (out @ [ident]))"

text \<open>The identities minted in a schedule, and the ones whose registration failed.\<close>

fun minted :: "id_event list \<Rightarrow> string list" where
  "minted [] = []"
| "minted (Pass done ident err # evs) = (if done then minted evs else ident # minted evs)"
| "minted (ev # evs) = minted evs"

fun failed :: "id_event list \<Rightarrow> string list" where
  "failed [] = []"
| "failed (Pass done ident err # evs) =
     (if \<not> done \<and> err \<noteq> None then ident # failed evs else failed evs)"
| "failed (ev # evs) = failed evs"

fun held :: "idqueue \<Rightarrow> string list" where
  "held q = (case fetcherAt q of Sending ident \<Rightarrow> [ident] | _ \<Rightarrow> [])"

subsection \<open>Notions used in the statements\<close>

text \<open>The number of errors a sequence of calls records.\<close>

fun recorded :: "budget_call list \<Rightarrow> nat" where
  "recorded [] = 0"
| "recorded (CallAppendError (Some m) # xs) = Suc (recorded xs)"
| "recorded (x # xs) = recorded xs"

text \<open>The part of the manager that the score and the error budget are made of.\<close>

definition budget :: "manager \<Rightarrow> int64 \<times> string list \<times> bool" where
  "budget c = (score c, errors c, overError c)"

text \<open>The run is voided, or fewer than \<open>AllowErrorMax\<close> errors are recorded.\<close>

definition budget_inv :: "config \<Rightarrow> manager \<Rightarrow> bool" where
  "budget_inv cfg c = (overError c \<or> int (ErrorCount c) < AllowErrorMax cfg)"

text \<open>
  The states of the manager that its operations reach from \<open>NewManager\<close>. Between two
  operations the investors go their own way: what they report may change.
\<close>

inductive reachable :: "config \<Rightarrow> env \<Rightarrow> manager \<Rightarrow> bool" for cfg :: config and ev :: env where
  reach_new: "reachable cfg ev NewManager"
| reach_AddScore: "reachable cfg ev c \<Longrightarrow> reachable cfg ev (AddScore d c)"
| reach_AppendError: "reachable cfg ev c \<Longrightarrow> reachable cfg ev (snd (AppendError cfg e c))"
| reach_AddInvestor: "reachable cfg ev c \<Longrightarrow> reachable cfg ev (AddInvestor i c)"
| reach_PurgeInvestor: "reachable cfg ev c \<Longrightarrow> reachable cfg ev (PurgeInvestor c)"
| reach_runExecTask: "reachable cfg ev c \<Longrightarrow> reachable cfg ev (runExecTask i c)"
| reach_Start: "reachable cfg ev c \<Longrightarrow> reachable cfg ev (snd (Start cfg ev c))"
| reach_Next: "reachable cfg ev c \<Longrightarrow> Next cfg ev c = Some (r, c') \<Longrightarrow> reachable cfg ev c'"
| reach_investors: "reachable cfg ev c \<Longrightarrow> reachable cfg ev (c\<lparr>investors := invs\<rparr>)"

text \<open>
  The strategies of the investors that a batch of tasks admits, in the order of the
  batch, and the tasks of the batch that are work of an investor.
\<close>

fun admitted :: "task list \<Rightarrow> strategy list" where
  "admitted [] = []"
| "admitted (ExecTask i # ts) = ivStrategy i # admitted ts"
| "admitted (t # ts) = admitted ts"

fun work :: "task list \<Rightarrow> task list" where
  "work [] = []"
| "work (ExecTask i # ts) = work ts"
| "work (t # ts) = t # work ts"

fun startedBy :: "task list \<Rightarrow> investor list" where
  "startedBy [] = []"
| "startedBy (StartTask i # ts) = i # startedBy ts"
| "startedBy (t # ts) = startedBy ts"

text \<open>
  An admission request for \<open>num\<close> investors with a unit amount and a price: the
  investor at an odd index holds credit and no inventory and bids below the price, the
  one at an even index holds inventory and no credit and asks above it.
\<close>

definition requested :: "nat \<Rightarrow> int64 \<Rightarrow> int64 \<Rightarrow> strategy" where
  "requested i unitamount price =
     (if odd i then RandomInvestor (price * 1000) 0 unitamount (price - 2)
      else RandomInvestor 0 (unitamount * 100) unitamount (price + 5))"

definition request :: "int \<Rightarrow> int64 \<Rightarrow> int64 \<Rightarrow> strategy list" where
  "request num unitamount price = map (\<lambda>i. requested i unitamount price) [0..<nat num]"

text \<open>The default population of \<open>Start\<close>.\<close>

definition defaultInvestor :: "nat \<Rightarrow> strategy" where
  "defaultInvestor i =
     (if odd i then RandomInvestor 100000 0 1 (5105 + of_nat (i div 2))
      else RandomInvestor 0 5 1 (5105 + of_nat (i div 2)))"

text \<open>An investor that \<open>Next\<close> asks for work and for shared trades.\<close>

definition eligible :: "investor \<Rightarrow> bool" where
  "eligible i = (ivIsStartCompleted i \<and> \<not> ivIsRetired i)"

definition shareRequests :: "config \<Rightarrow> investor list \<Rightarrow> strategy list" where
  "shareRequests cfg invs =
     concat (map (\<lambda>i. concat (map (\<lambda>t. request (AddUsersOnShare cfg) (Amount t) (Price t))
                                   (ivSharedTrades i)))
                 (filter eligible invs))"

definition latestPrice :: "int64 \<Rightarrow> investor list \<Rightarrow> int64" where
  "latestPrice d invs =
     (case rev (filter eligible invs) of [] \<Rightarrow> d | i # rest \<Rightarrow> ivLatestTradePrice i)"

text \<open>The requests of \<open>k\<close> level-ups in a row, the first one leaving level \<open>l\<close>.\<close>

fun naturalRequests :: "config \<Rightarrow> int64 \<Rightarrow> uint \<Rightarrow> nat \<Rightarrow> strategy list" where
  "naturalRequests cfg price l 0 = []"
| "naturalRequests cfg price l (Suc k) =
     request (AddUsersOnNatural cfg) (l + 1 + 1) price @ naturalRequests cfg price (l + 1) k"

text \<open>Every call of \<open>c.newClient\<close> and of \<open>NewClient\<close> returns a client.\<close>

definition clientsOK :: "env \<Rightarrow> bool" where
  "clientsOK ev = ((\<forall>k. \<exists>cl. envNewClient ev k = Inr cl) \<and> (\<forall>a. \<exists>cl. envBruteClient ev a = Inr cl))"

text \<open>The shared trades that \<open>Next\<close> collects in one tick, in the order of the loop.\<close>

definition sharedTrades :: "investor list \<Rightarrow> trade list" where
  "sharedTrades invs = concat (map ivSharedTrades (filter eligible invs))"

text \<open>The lines that the prefetch loop prints in a schedule.\<close>

fun failureLines :: "id_event list \<Rightarrow> string list" where
  "failureLines [] = []"
| "failureLines (Pass done ident (Some m) # evs) =
     (if done then failureLines evs else (''new bankid failed. '' @ m) # failureLines evs)"
| "failureLines (ev # evs) = failureLines evs"

text \<open>
  What the loop of the natural growth has done when it returns \<open>y\<close>: it has changed
  nothing but the level, the log and the count of clients; an error is an error of
  \<open>newClient\<close>; a batch holds the requests of \<open>k\<close> rises of the level, each rise was
  allowed by the score and the errors, and the loop has stopped on one of its two tests.
\<close>

definition naturalPost :: "config \<Rightarrow> int64 \<Rightarrow> int64 \<Rightarrow> task list \<Rightarrow> manager \<Rightarrow> (bench_error + task list) \<times> manager \<Rightarrow> bool" where
  "naturalPost cfg sc price tasks c y =
     ((\<exists>lv lg n. snd y = c\<lparr>level := lv, logged := lg, newClientCalls := n\<rparr>) \<and>
      (case fst y of
         Inl e \<Rightarrow> (\<exists>m. e = ErrNewClient m)
       | Inr tasks' \<Rightarrow>
           (\<exists>k. admitted tasks' = admitted tasks @ naturalRequests cfg price (level c) k \<and>
                work tasks' = work tasks \<and>
                level (snd y) = level c + of_nat k \<and>
                logged (snd y) = logged c @ replicate k LogNaturalGrowth \<and>
                (\<forall>j<k. \<not> sint sc < sint (nextScore (level c + of_nat j))) \<and>
                (0 < k \<longrightarrow> \<not> AllowErrorMin cfg < int (ErrorCount c)) \<and>
                (sint sc < sint (nextScore (level (snd y))) \<or> AllowErrorMin cfg < int (ErrorCount c)))))"

text \<open>What holds of the level for every result of the loop, an error included.\<close>

definition levelPost :: "config \<Rightarrow> int64 \<Rightarrow> manager \<Rightarrow> (bench_error + task list) \<times> manager \<Rightarrow> bool" where
  "levelPost cfg sc c y =
     (\<exists>k. level (snd y) = level c + of_nat k \<and>
          (\<forall>j<k. \<not> sint sc < sint (nextScore (level c + of_nat j))) \<and>
          (0 < k \<longrightarrow> \<not> AllowErrorMin cfg < int (ErrorCount c)))"

text \<open>
  The sentence of the spec on the parities, for comparison with the code: a buyer with
  credit and no inventory at the even indices, a seller with inventory and no credit at
  the odd ones.
\<close>

fun specParity :: "nat \<Rightarrow> strategy list \<Rightarrow> bool" where
  "specParity i [] = True"
| "specParity i (s # ss) =
     ((if even i then 0 < sint (seededCredit s) \<and> seededIsu s = 0
       else 0 < sint (seededIsu s) \<and> seededCredit s = 0) \<and>
      specParity (Suc i) ss)"

subsection \<open>Examples\<close>

text \<open>
  The constants with the values that the spec takes as an illustration, an environment
  in which every client can be built, and a few managers.
\<close>

definition exampleConfig :: config where
  "exampleConfig = \<lparr> AllowErrorMin = 5, AllowErrorMax = 100, AddUsersOnShare = 2,
     AddUsersOnNatural = 3, DefaultWorkers = 4, BruteForceWorkers = 2 \<rparr>"

definition exampleEnv :: env where
  "exampleEnv = \<lparr> envNewClient = (\<lambda>k. Inr \<lparr> clBankID = ''id'', clName = ''name'', clPassword = ''pass'' \<rparr>),
     envBruteClient = (\<lambda>a. Inr \<lparr> clBankID = a, clName = ''name'', clPassword = ''12345'' \<rparr>) \<rparr>"

definition exampleInvestor :: "string \<Rightarrow> bool \<Rightarrow> investor" where
  "exampleInvestor ident retired =
     (NewRandomInvestor \<lparr> clBankID = ident, clName = ''name'', clPassword = ''pass'' \<rparr> 0 5 1 5105)
       \<lparr> ivIsStarted := True, ivIsStartCompleted := True, ivIsRetired := retired,
         ivLatestTradePrice := 5000 \<rparr>"

definition exampleRun :: manager where
  "exampleRun = calls exampleConfig [CallAppendError (Some ''timeout''), CallAddScore 8000] NewManager"

definition idleManager :: manager where
  "idleManager = NewManager\<lparr>investors := [exampleInvestor ''a'' False, exampleInvestor ''b'' True]\<rparr>"

definition growthManager :: manager where
  "growthManager = NewManager\<lparr>investors :=
     [(exampleInvestor ''a'' False)\<lparr>ivSharedTrades := [\<lparr>Amount = 10, Price = 5000\<rparr>]\<rparr>,
      exampleInvestor ''b'' True]\<rparr>"

definition scoredManager :: "int64 \<Rightarrow> manager" where
  "scoredManager s = NewManager\<lparr>investors := [exampleInvestor ''a'' False], score := s\<rparr>"

definition overflowManager :: manager where
  "overflowManager = AddScore 7205759403792793600 (scoredManager 0)"

section \<open>Properties\<close>

subsection \<open>Arithmetic of the score\<close>

lemma sdiv_pos_nonneg: "0 < b \<Longrightarrow> 0 \<le> a \<Longrightarrow> a sdiv b = a div b" for a b :: int
  by (simp add: signed_divide_int_def sgn_if)

lemma sdiv_pos_neg: "0 < b \<Longrightarrow> a < 0 \<Longrightarrow> a sdiv b = - ((- a) div b)" for a b :: int
  by (simp add: signed_divide_int_def sgn_if)

lemma div_le_self_int: "0 < b \<Longrightarrow> 0 \<le> a \<Longrightarrow> a div b \<le> a" for a b :: int
  by (metis div_by_1 int_one_le_iff_zero_less zdiv_mono2 zero_less_one)

lemma sdiv_pos_bounds:
  fixes a b :: int
  assumes "0 < b"
  shows "min a 0 \<le> a sdiv b" and "a sdiv b \<le> max a 0"
proof -
  show "min a 0 \<le> a sdiv b"
  proof (cases "0 \<le> a")
    case True
    then show ?thesis using assms by (simp add: sdiv_pos_nonneg pos_imp_zdiv_nonneg_iff)
  next
    case False
    then have "(- a) div b \<le> - a" using assms
      by (intro div_le_self_int) auto
    with False show ?thesis using assms by (simp add: sdiv_pos_neg)
  qed
  show "a sdiv b \<le> max a 0"
  proof (cases "0 \<le> a")
    case True
    then have "a div b \<le> a" using assms by (intro div_le_self_int) auto
    with True show ?thesis using assms by (simp add: sdiv_pos_nonneg)
  next
    case False
    then have "0 \<le> (- a) div b" using assms by (simp add: pos_imp_zdiv_nonneg_iff)
    with False show ?thesis using assms by (simp add: sdiv_pos_neg)
  qed
qed

lemma sint64_range: "- (2 ^ 63) \<le> sint (w :: int64)" "sint (w :: int64) < 2 ^ 63"
  using sint_ge [of w] sint_lt [of w] by simp_all

lemma sint_word_of_int64: "- (2 ^ 63) \<le> k \<Longrightarrow> k < 2 ^ 63 \<Longrightarrow> sint (word_of_int k :: int64) = k"
  by (simp add: sint_sbintrunc' signed_take_bit_int_eq_self)

lemma sint_quo64: "0 < b \<Longrightarrow> sint (quo64 a b) = sint a sdiv b"
proof -
  assume b: "0 < b"
  have "- (2 ^ 63) \<le> sint a sdiv b"
    using sdiv_pos_bounds(1) [OF b, of "sint a"] sint64_range(1) [of a] by (simp add: min_def split: if_splits)
  moreover have "sint a sdiv b < 2 ^ 63"
    using sdiv_pos_bounds(2) [OF b, of "sint a"] sint64_range(2) [of a] by (simp add: max_def split: if_splits)
  ultimately show ?thesis
    unfolding quo64_def by (rule sint_word_of_int64)
qed

lemma errorLimit_clamp:
  "AllowErrorMin cfg \<le> AllowErrorMax cfg \<Longrightarrow>
   errorLimit cfg c = clamp (sint (GetScore c) sdiv 20) (AllowErrorMin cfg) (AllowErrorMax cfg)"
  by (simp add: errorLimit_def clamp_def sint_quo64 Let_def)

lemma errorLimit_le_max:
  "AllowErrorMin cfg \<le> AllowErrorMax cfg \<Longrightarrow> errorLimit cfg c \<le> AllowErrorMax cfg"
  by (simp add: errorLimit_def Let_def)




lemma AppendError_nil: "AppendError cfg None c = (None, c)"
  by (simp add: AppendError_def)

lemma AppendError_errors:
  "errors (snd (AppendError cfg (Some m) c)) = errors c @ [m]"
  by (simp add: AppendError_def Let_def)

lemma errorLimit_errors_upd [simp]:
  "errorLimit cfg (c\<lparr>errors := es\<rparr>) = errorLimit cfg c"
  by (simp add: errorLimit_def GetScore_def)

lemma AppendError_result:
  "fst (AppendError cfg (Some m) c) =
     (if errorLimit cfg c \<le> int (ErrorCount c) + 1 then Some ErrOverLimit else None)"
  by (simp add: AppendError_def Let_def ErrorCount_def)

lemma AppendError_overError:
  "overError (snd (AppendError cfg (Some m) c)) =
     (overError c \<or> errorLimit cfg c \<le> int (ErrorCount c) + 1)"
  by (simp add: AppendError_def Let_def ErrorCount_def)

lemma call_overError: "overError c \<Longrightarrow> overError (call cfg x c)"
  by (cases x) (auto simp: AppendError_def AddScore_def Let_def split: option.splits)

lemma calls_overError: "overError c \<Longrightarrow> overError (calls cfg xs c)"
  by (induction xs arbitrary: c) (auto simp: call_overError)


lemma call_ErrorCount:
  "ErrorCount (call cfg x c) = ErrorCount c + recorded [x]"
  by (cases x) (auto simp: AppendError_def AddScore_def ErrorCount_def Let_def split: option.splits)

lemma recorded_Cons: "recorded (x # xs) = recorded [x] + recorded xs"
  by (cases "(x # xs)" rule: recorded.cases) auto

lemma calls_ErrorCount:
  "ErrorCount (calls cfg xs c) = ErrorCount c + recorded xs"
proof (induction xs arbitrary: c)
  case Nil
  then show ?case by simp
next
  case (Cons x xs)
  show ?case using Cons.IH [of "call cfg x c"] recorded_Cons [of x xs]
    by (simp add: call_ErrorCount)
qed


lemma call_budget_inv:
  assumes "AllowErrorMin cfg \<le> AllowErrorMax cfg" and "budget_inv cfg c"
  shows "budget_inv cfg (call cfg x c)"
proof (cases x)
  case (CallAppendError e)
  show ?thesis
  proof (cases e)
    case None
    with CallAppendError assms(2) show ?thesis by (simp add: AppendError_def)
  next
    case (Some m)
    have "errorLimit cfg c \<le> AllowErrorMax cfg"
      using assms(1) by (rule errorLimit_le_max)
    then show ?thesis using CallAppendError Some assms(2)
      by (auto simp: budget_inv_def AppendError_def Let_def ErrorCount_def)
  qed
next
  case (CallAddScore d)
  with assms(2) show ?thesis by (simp add: budget_inv_def AddScore_def ErrorCount_def)
qed

lemma calls_budget_inv:
  "AllowErrorMin cfg \<le> AllowErrorMax cfg \<Longrightarrow> budget_inv cfg c \<Longrightarrow> budget_inv cfg (calls cfg xs c)"
  by (induction xs arbitrary: c) (auto simp: call_budget_inv)

lemma NewManager_budget_inv: "0 < AllowErrorMax cfg \<Longrightarrow> budget_inv cfg NewManager"
  by (simp add: budget_inv_def NewManager_def ErrorCount_def)


lemma demerit_bounds:
  fixes s m n :: int
  assumes m: "0 < m" and n: "0 \<le> n" "n \<le> m"
  shows "0 \<le> s \<Longrightarrow> 0 \<le> (s sdiv (m * 2)) * n \<and> 2 * ((s sdiv (m * 2)) * n) \<le> s"
    and "s < 0 \<Longrightarrow> (s sdiv (m * 2)) * n \<le> 0 \<and> s \<le> 2 * ((s sdiv (m * 2)) * n)"
proof -
  have m2: "0 < m * 2" using m by simp
  {
    assume s: "0 \<le> s"
    define q where "q = s div (m * 2)"
    have q0: "0 \<le> q" using s m2 by (simp add: q_def pos_imp_zdiv_nonneg_iff)
    have "q * (m * 2) \<le> s" unfolding q_def using m2
      by (metis mult.commute pos_mod_sign mult_div_mod_eq le_add_same_cancel1)
    moreover have "q * n \<le> q * m" using q0 n by (simp add: mult_left_mono)
    ultimately have "2 * (q * n) \<le> s" by (simp add: algebra_simps)
    moreover have "0 \<le> q * n" using q0 n by simp
    ultimately show "0 \<le> (s sdiv (m * 2)) * n \<and> 2 * ((s sdiv (m * 2)) * n) \<le> s"
      using s m2 by (simp add: sdiv_pos_nonneg q_def)
  }
  {
    assume s: "s < 0"
    define q where "q = (- s) div (m * 2)"
    have q0: "0 \<le> q" using s m2 by (simp add: q_def pos_imp_zdiv_nonneg_iff)
    have "q * (m * 2) \<le> - s" unfolding q_def using m2
      by (metis mult.commute pos_mod_sign mult_div_mod_eq le_add_same_cancel1)
    moreover have "q * n \<le> q * m" using q0 n by (simp add: mult_left_mono)
    ultimately have "2 * (q * n) \<le> - s" by (simp add: algebra_simps)
    moreover have "0 \<le> q * n" using q0 n by simp
    moreover have "s sdiv (m * 2) = - q" using s m2 by (simp add: sdiv_pos_neg q_def)
    ultimately show "(s sdiv (m * 2)) * n \<le> 0 \<and> s \<le> 2 * ((s sdiv (m * 2)) * n)"
      by simp
  }
qed

lemma TotalScore_sint:
  assumes v: "\<not> overError c" and m: "0 < AllowErrorMax cfg"
    and n: "int (ErrorCount c) \<le> AllowErrorMax cfg"
  shows "sint (TotalScore cfg c) =
         sint (GetScore c) - (sint (GetScore c) sdiv (AllowErrorMax cfg * 2)) * int (ErrorCount c)"
proof -
  let ?s = "sint (GetScore c)"
  let ?d = "?s sdiv (AllowErrorMax cfg * 2)"
  let ?n = "int (ErrorCount c)"
  have eq: "TotalScore cfg c = word_of_int (?s - ?d * ?n)"
    using v by (simp add: TotalScore_def quo64_def Let_def)
  have r: "- (2 ^ 63) \<le> ?s" "?s < 2 ^ 63" by (rule sint64_range)+
  have "- (2 ^ 63) \<le> ?s - ?d * ?n \<and> ?s - ?d * ?n < 2 ^ 63"
  proof (cases "0 \<le> ?s")
    case True
    from demerit_bounds(1) [OF m _ n True] r show ?thesis by simp
  next
    case False
    then have "?s < 0" by simp
    from demerit_bounds(2) [OF m _ n this] r show ?thesis by simp
  qed
  then have "sint (word_of_int (?s - ?d * ?n) :: int64) = ?s - ?d * ?n"
    by (intro sint_word_of_int64) simp_all
  then show ?thesis by (simp only: eq)
qed

lemma TotalScore_half:
  assumes v: "\<not> overError c" and m: "0 < AllowErrorMax cfg"
    and n: "int (ErrorCount c) \<le> AllowErrorMax cfg" and s: "0 \<le> sint (GetScore c)"
  shows "sint (GetScore c) sdiv 2 \<le> sint (TotalScore cfg c)"
proof -
  from demerit_bounds(1) [OF m _ n s]
  have "2 * ((sint (GetScore c) sdiv (AllowErrorMax cfg * 2)) * int (ErrorCount c)) \<le> sint (GetScore c)"
    by simp
  moreover have "sint (GetScore c) sdiv 2 = sint (GetScore c) div 2"
    using s by (simp add: sdiv_pos_nonneg)
  ultimately show ?thesis unfolding TotalScore_sint [OF v m n] by linarith
qed

subsection \<open>What the operations leave unchanged\<close>

lemma newClient_budget: "budget (snd (newClient ev c)) = budget c"
  by (simp add: newClient_def budget_def)

lemma addInvestorsFrom_budget:
  "budget (snd (addInvestorsFrom ev num ua price i tasks c)) = budget c"
proof (induction ev num ua price i tasks c rule: addInvestorsFrom.induct)
  case (1 ev num ua price i tasks c)
  show ?case
  proof (cases "i < num")
    case False
    then show ?thesis by (simp add: addInvestorsFrom.simps [of ev num ua price i])
  next
    case True
    show ?thesis
    proof (cases "envNewClient ev (newClientCalls c)")
      case (Inl m)
      with True show ?thesis
        by (simp add: addInvestorsFrom.simps [of ev num ua price i] newClient_def budget_def)
    next
      case (Inr cl)
      with True 1 show ?thesis
        by (simp add: addInvestorsFrom.simps [of ev num ua price i] newClient_def budget_def Let_def)
    qed
  qed
qed

lemma tradesLoop_budget:
  "budget (snd (tradesLoop cfg ev ts tasks n c)) = budget c"
proof (induction ts arbitrary: tasks n c)
  case Nil
  then show ?case by simp
next
  case (Cons t ts)
  show ?case
  proof (cases "addInvestors ev (AddUsersOnShare cfg) (Amount t) (Price t) tasks c")
    case (Pair r c1)
    have b: "budget c1 = budget c"
      using addInvestorsFrom_budget [of ev "AddUsersOnShare cfg" "Amount t" "Price t" 0 tasks c] Pair
      by (simp add: addInvestors_def)
    show ?thesis
    proof (cases r)
      case (Inl e)
      with Pair b show ?thesis by simp
    next
      case (Inr tasks1)
      with Pair b Cons.IH [of tasks1 "n + 1" c1] show ?thesis by simp
    qed
  qed
qed

lemma shareLoop_budget:
  "budget (snd (shareLoop cfg ev is tasks lp n c)) = budget c"
proof (induction "is" arbitrary: tasks lp n c)
  case Nil
  then show ?case by simp
next
  case (Cons i rest)
  show ?case
  proof (cases "\<not> ivIsStartCompleted i \<or> ivIsRetired i")
    case True
    then show ?thesis using Cons.IH by auto
  next
    case False
    define tasks1 where "tasks1 = (if ivHasNext i then tasks @ [NextTask i] else tasks)"
    show ?thesis
    proof (cases "tradesLoop cfg ev (ivSharedTrades i) tasks1 n c")
      case (Pair r c1)
      have b: "budget c1 = budget c"
        using tradesLoop_budget [of cfg ev "ivSharedTrades i" tasks1 n c] Pair by simp
      show ?thesis
      proof (cases r)
        case (Inl e)
        with Pair b False show ?thesis by (simp add: tasks1_def)
      next
        case (Inr p)
        obtain tasks2 n2 where p: "p = (tasks2, n2)" by (cases p)
        with Inr Pair b False Cons.IH [of tasks2 "ivLatestTradePrice i" n2 c1]
        show ?thesis by (simp add: tasks1_def)
      qed
    qed
  qed
qed

lemma naturalLoop_budget_snd:
  assumes a: "naturalLoop cfg ev sc lp tasks c = Some y"
  shows "budget (snd y) = budget c"
proof (rule naturalLoop.raw_induct [where P = "\<lambda>cfg ev sc lp tasks c y. budget (snd y) = budget c", OF _ a])
  fix f :: "config \<Rightarrow> env \<Rightarrow> int64 \<Rightarrow> int64 \<Rightarrow> task list \<Rightarrow> manager \<Rightarrow> ((bench_error + task list) \<times> manager) option"
    and cfg :: config and ev :: env and sc lp :: int64 and tasks :: "task list"
    and c :: manager and y :: "(bench_error + task list) \<times> manager"
  assume IH: "\<And>cfg ev sc lp tasks c y. f cfg ev sc lp tasks c = Some y \<Longrightarrow> budget (snd y) = budget c"
  let ?c2 = "c\<lparr>level := level c + 1, logged := logged c @ [LogNaturalGrowth]\<rparr>"
  assume eq: "(if sint sc < sint (nextScore (level c)) then Some (Inr tasks, c)
          else if AllowErrorMin cfg < int (ErrorCount c)
               then Some (Inr tasks, c)
               else let c1 = c\<lparr>level := level c + 1\<rparr>;
                        c2 = c1\<lparr>logged := logged c1 @ [LogNaturalGrowth]\<rparr>
                    in case addInvestors ev (AddUsersOnNatural cfg)
                             (level c2 + 1) lp tasks c2 of
                       (Inl e, c3) \<Rightarrow> Some (Inl e, c3)
                       | (Inr tasks1, c3) \<Rightarrow> f cfg ev sc lp tasks1 c3) = Some y"
  show "budget (snd y) = budget c"
  proof (cases "sint sc < sint (nextScore (level c)) \<or> AllowErrorMin cfg < int (ErrorCount c)")
    case True
    with eq show ?thesis by (auto split: if_splits)
  next
    case False
    obtain r c3 where ai: "addInvestors ev (AddUsersOnNatural cfg) (level c + 1 + 1) lp tasks ?c2 = (r, c3)"
      by (cases "addInvestors ev (AddUsersOnNatural cfg) (level c + 1 + 1) lp tasks ?c2")
    have b: "budget c3 = budget c"
      using addInvestorsFrom_budget [of ev "AddUsersOnNatural cfg" "level c + 1 + 1" lp 0 tasks ?c2] ai
      by (simp add: addInvestors_def budget_def)
    show ?thesis
    proof (cases r)
      case (Inl e)
      with False eq ai b show ?thesis by (auto simp: Let_def)
    next
      case (Inr tasks1)
      with False eq ai have "f cfg ev sc lp tasks1 c3 = Some y" by (simp add: Let_def)
      from IH [OF this] b show ?thesis by simp
    qed
  qed
qed


lemma startDefault_budget:
  "budget (snd (startDefault cfg ev i tasks c)) = budget c"
proof (induction cfg ev i tasks c rule: startDefault.induct)
  case (1 cfg ev i tasks c)
  show ?case
  proof (cases "i < DefaultWorkers cfg")
    case False
    then show ?thesis by (simp add: startDefault.simps [of cfg ev i])
  next
    case True
    show ?thesis
    proof (cases "envNewClient ev (newClientCalls c)")
      case (Inl m)
      with True show ?thesis
        by (simp add: startDefault.simps [of cfg ev i] newClient_def budget_def)
    next
      case (Inr cl)
      with True 1 show ?thesis
        by (simp add: startDefault.simps [of cfg ev i] newClient_def budget_def Let_def
            grantCredit_def AddInvestor_def)
    qed
  qed
qed

lemma startBruteForce_budget:
  "budget (snd (startBruteForce cfg ev i tasks c)) = budget c"
proof (induction cfg ev i tasks c rule: startBruteForce.induct)
  case (1 cfg ev i tasks c)
  show ?case
  proof (cases "i < BruteForceWorkers cfg \<and> 0 \<le> i \<and> i < int (length accounts)")
    case False
    then show ?thesis by (auto simp add: startBruteForce.simps [of cfg ev i])
  next
    case True
    show ?thesis
    proof (cases "envBruteClient ev (accounts ! nat i)")
      case (Inl m)
      with True show ?thesis
        by (simp add: startBruteForce.simps [of cfg ev i])
    next
      case (Inr cl)
      with True 1 show ?thesis
        by (simp add: startBruteForce.simps [of cfg ev i] budget_def Let_def AddInvestor_def)
    qed
  qed
qed

lemma Start_budget: "budget (snd (Start cfg ev c)) = budget c"
proof (cases "startDefault cfg ev 0 [] c")
  case (Pair r c1)
  then have b: "budget c1 = budget c" using startDefault_budget [of cfg ev 0 "[]" c] by simp
  show ?thesis
  proof (cases r)
    case (Inl e)
    with Pair b show ?thesis by (simp add: Start_def)
  next
    case (Inr tasks)
    with Pair b startBruteForce_budget [of cfg ev 0 tasks c1] show ?thesis by (simp add: Start_def)
  qed
qed

lemma PurgeInvestor_budget: "budget (PurgeInvestor c) = budget c"
  by (simp add: PurgeInvestor_def budget_def split: prod.splits)

lemma AddInvestor_budget: "budget (AddInvestor i c) = budget c"
  by (simp add: AddInvestor_def budget_def)

lemma runExecTask_budget: "budget (runExecTask i c) = budget c"
  by (simp add: runExecTask_def AddInvestor_def grantCredit_def budget_def)

lemma Next_budget:
  assumes "Next cfg ev c = Some (r, c')"
  shows "budget c' = budget c"
proof -
  let ?c1 = "PurgeInvestor c"
  have b1: "budget ?c1 = budget c" by (rule PurgeInvestor_budget)
  show ?thesis
  proof (cases "ActiveInvestors ?c1 = 0")
    case True
    with assms b1 show ?thesis by (simp add: Next_def Let_def)
  next
    case False
    obtain r2 c2 where sl: "shareLoop cfg ev (investors ?c1) (startLoop (investors ?c1) 2 []) 5000 0 ?c1 = (r2, c2)"
      by (cases "shareLoop cfg ev (investors ?c1) (startLoop (investors ?c1) 2 []) 5000 0 ?c1")
    have b2: "budget c2 = budget c"
      using shareLoop_budget [of cfg ev "investors ?c1" "startLoop (investors ?c1) 2 []" 5000 0 ?c1] sl b1
      by simp
    show ?thesis
    proof (cases r2)
      case (Inl e)
      with assms False sl b2 show ?thesis by (simp add: Next_def Let_def)
    next
      case (Inr p)
      obtain tasks1 lp n where p: "p = (tasks1, lp, n)" by (cases p)
      let ?c3 = "if n > 0 then c2\<lparr>logged := logged c2 @ [LogAddByShare n]\<rparr> else c2"
      have b3: "budget ?c3 = budget c" using b2 by (simp add: budget_def)
      from assms False sl Inr p
      have "naturalLoop cfg ev (GetScore ?c3) lp tasks1 ?c3 = Some (r, c')"
        by (simp add: Next_def Let_def)
      from naturalLoop_budget_snd [OF this] b3 show ?thesis by simp
    qed
  qed
qed

lemma AppendError_budget_inv:
  assumes "AllowErrorMin cfg \<le> AllowErrorMax cfg" and "budget_inv cfg c"
  shows "budget_inv cfg (snd (AppendError cfg e c))"
  using call_budget_inv [OF assms, of "CallAppendError e"] by simp

lemma budget_inv_cong: "budget c' = budget c \<Longrightarrow> budget_inv cfg c' = budget_inv cfg c"
  by (simp add: budget_def budget_inv_def ErrorCount_def)

lemma reachable_budget_inv:
  assumes m: "0 < AllowErrorMax cfg" and mm: "AllowErrorMin cfg \<le> AllowErrorMax cfg"
    and r: "reachable cfg ev c"
  shows "budget_inv cfg c"
  using r
proof (induction rule: reachable.induct)
  case reach_new
  show ?case using m by (rule NewManager_budget_inv)
next
  case (reach_AddScore c d)
  then show ?case using call_budget_inv [OF mm, of c "CallAddScore d"] by simp
next
  case (reach_AppendError c e)
  then show ?case using AppendError_budget_inv [OF mm] by simp
next
  case (reach_AddInvestor c i)
  then show ?case using budget_inv_cong [OF AddInvestor_budget] by simp
next
  case (reach_PurgeInvestor c)
  then show ?case using budget_inv_cong [OF PurgeInvestor_budget] by simp
next
  case (reach_runExecTask c i)
  then show ?case using budget_inv_cong [OF runExecTask_budget] by simp
next
  case (reach_Start c)
  then show ?case using budget_inv_cong [OF Start_budget] by simp
next
  case (reach_Next c r c')
  then show ?case using budget_inv_cong [OF Next_budget] by blast
next
  case (reach_investors c invs)
  then show ?case by (simp add: budget_inv_def ErrorCount_def)
qed

lemma calls_reachable: "reachable cfg ev c \<Longrightarrow> reachable cfg ev (calls cfg xs c)"
proof (induction xs arbitrary: c)
  case Nil
  then show ?case by simp
next
  case (Cons x xs)
  have "reachable cfg ev (call cfg x c)"
    using Cons.prems by (cases x) (auto intro: reachable.intros)
  then show ?case using Cons.IH by simp
qed

subsection \<open>The contract of AppendError\<close>

text \<open>
  Claim C2. \<open>AppendError(nil)\<close> returns \<open>nil\<close> and changes nothing. For an error \<open>m\<close>,
  \<open>AppendError\<close> appends \<open>m\<close> to the list of errors; with the ceiling
  \<open>clamp(GetScore()/20, AllowErrorMin, AllowErrorMax)\<close>, it returns the budget-exceeded
  error exactly when the new number of errors has reached the ceiling, and \<open>nil\<close> exactly
  when it has not; the run is voided afterwards exactly when it was voided before or the
  ceiling is reached. After any sequence of calls on a new manager, \<open>ErrorCount()\<close> is the
  number of calls of \<open>AppendError\<close> with an error. The constants satisfy
  \<open>AllowErrorMin \<le> AllowErrorMax\<close>, as a floor and a ceiling do.
\<close>

theorem AppendError_contract:
  assumes "AllowErrorMin cfg \<le> AllowErrorMax cfg"
  shows "AppendError cfg None c = (None, c) \<and>
    (let ceiling = clamp (sint (GetScore c) sdiv 20) (AllowErrorMin cfg) (AllowErrorMax cfg);
         r = AppendError cfg (Some m) c
     in errors (snd r) = errors c @ [m] \<and>
        (fst r = Some ErrOverLimit \<longleftrightarrow> ceiling \<le> int (ErrorCount (snd r))) \<and>
        (fst r = None \<longleftrightarrow> \<not> ceiling \<le> int (ErrorCount (snd r))) \<and>
        (overError (snd r) \<longleftrightarrow> overError c \<or> ceiling \<le> int (ErrorCount (snd r)))) \<and>
    ErrorCount (calls cfg xs NewManager) = recorded xs"
proof -
  have e: "errorLimit cfg c = clamp (sint (GetScore c) sdiv 20) (AllowErrorMin cfg) (AllowErrorMax cfg)"
    using assms by (rule errorLimit_clamp)
  have n: "int (ErrorCount (snd (AppendError cfg (Some m) c))) = int (ErrorCount c) + 1"
    by (simp add: ErrorCount_def AppendError_errors)
  have "ErrorCount (calls cfg xs NewManager) = recorded xs"
    by (simp add: calls_ErrorCount) (simp add: ErrorCount_def NewManager_def)
  then show ?thesis
    unfolding Let_def n e [symmetric]
    by (simp add: AppendError_nil AppendError_errors AppendError_result AppendError_overError)
qed

theorem AppendError_contract_witness:
  "AllowErrorMin exampleConfig \<le> AllowErrorMax exampleConfig \<and>
   AppendError exampleConfig (Some ''timeout'') NewManager
     = (None, NewManager\<lparr>errors := [''timeout'']\<rparr>) \<and>
   fst (AppendError exampleConfig (Some ''e5'')
          (NewManager\<lparr>errors := [''e1'', ''e2'', ''e3'', ''e4'']\<rparr>)) = Some ErrOverLimit \<and>
   ErrorCount (calls exampleConfig
     [CallAppendError None, CallAppendError (Some ''e1''), CallAddScore 7, CallAppendError None,
      CallAppendError (Some ''e2'')] NewManager) = 2"
proof -
  have h: "AllowErrorMin exampleConfig \<le> AllowErrorMax exampleConfig"
    by (simp add: exampleConfig_def)
  have q: "quo64 0 20 = 0" by (simp add: quo64_def)
  show ?thesis
    using h AppendError_contract [OF h, of NewManager "''timeout''"
      "[CallAppendError None, CallAppendError (Some ''e1''), CallAddScore 7, CallAppendError None,
        CallAppendError (Some ''e2'')]"]
    by (simp add: AppendError_def errorLimit_def GetScore_def NewManager_def exampleConfig_def q Let_def)
qed

lemma budget_overError: "budget c' = budget c \<Longrightarrow> overError c' = overError c"
  by (simp add: budget_def)

lemma TotalScore_voided: "overError c \<Longrightarrow> TotalScore cfg c = 0"
  by (simp add: TotalScore_def)

subsection \<open>A voided run stays voided\<close>

text \<open>
  Claim C1. When a call of \<open>AppendError\<close> returns the budget-exceeded error, the run is
  voided, and after any further sequence of calls of \<open>AppendError\<close> and \<open>AddScore\<close> the
  run is still voided and \<open>TotalScore()\<close> is 0. No operation of the manager clears the
  flag: not \<open>AppendError\<close>, \<open>AddScore\<close>, \<open>AddInvestor\<close>, \<open>PurgeInvestor\<close>, an admission
  task, \<open>Start\<close>, nor a call of \<open>Next\<close> that returns.
\<close>

theorem voided_forever:
  "(fst (AppendError cfg e c) = Some ErrOverLimit \<longrightarrow>
      overError (snd (AppendError cfg e c)) \<and>
      overError (calls cfg xs (snd (AppendError cfg e c))) \<and>
      TotalScore cfg (calls cfg xs (snd (AppendError cfg e c))) = 0) \<and>
   (overError c \<longrightarrow>
      overError (call cfg x c) \<and> overError (AddInvestor i c) \<and> overError (PurgeInvestor c) \<and>
      overError (runExecTask i c) \<and> overError (snd (Start cfg ev c)) \<and>
      (\<forall>r c'. Next cfg ev c = Some (r, c') \<longrightarrow> overError c'))"
proof (intro conjI impI allI)
  assume a: "fst (AppendError cfg e c) = Some ErrOverLimit"
  then show v: "overError (snd (AppendError cfg e c))"
    by (cases e) (auto simp: AppendError_def Let_def split: if_splits)
  then show v': "overError (calls cfg xs (snd (AppendError cfg e c)))"
    by (rule calls_overError)
  then show "TotalScore cfg (calls cfg xs (snd (AppendError cfg e c))) = 0"
    by (rule TotalScore_voided)
next
  assume o: "overError c"
  then show "overError (call cfg x c)" by (rule call_overError)
  show "overError (AddInvestor i c)" using o budget_overError [OF AddInvestor_budget] by simp
  show "overError (PurgeInvestor c)" using o budget_overError [OF PurgeInvestor_budget] by simp
  show "overError (runExecTask i c)" using o budget_overError [OF runExecTask_budget] by simp
  show "overError (snd (Start cfg ev c))" using o budget_overError [OF Start_budget] by simp
  fix r c'
  assume "Next cfg ev c = Some (r, c')"
  from budget_overError [OF Next_budget [OF this]] o show "overError c'" by simp
qed

theorem voided_forever_witness:
  "fst (AppendError exampleConfig (Some ''e5'') (NewManager\<lparr>errors := [''e1'', ''e2'', ''e3'', ''e4'']\<rparr>))
     = Some ErrOverLimit \<and>
   TotalScore exampleConfig
     (calls exampleConfig [CallAddScore 1000000, CallAppendError None, CallAppendError (Some ''e6'')]
        (snd (AppendError exampleConfig (Some ''e5'') (NewManager\<lparr>errors := [''e1'', ''e2'', ''e3'', ''e4'']\<rparr>)))) = 0 \<and>
   overError (PurgeInvestor (NewManager\<lparr>overError := True\<rparr>))"
proof -
  have q: "quo64 0 20 = 0" by (simp add: quo64_def)
  have a: "fst (AppendError exampleConfig (Some ''e5'') (NewManager\<lparr>errors := [''e1'', ''e2'', ''e3'', ''e4'']\<rparr>))
     = Some ErrOverLimit"
    by (simp add: AppendError_def errorLimit_def GetScore_def NewManager_def exampleConfig_def q Let_def)
  have b: "overError (NewManager\<lparr>overError := True\<rparr>)" by simp
  show ?thesis
    using a b
      voided_forever [of exampleConfig "Some ''e5''" "NewManager\<lparr>errors := [''e1'', ''e2'', ''e3'', ''e4'']\<rparr>"
        "[CallAddScore 1000000, CallAppendError None, CallAppendError (Some ''e6'')]"]
      voided_forever [of exampleConfig None "NewManager\<lparr>overError := True\<rparr>" "[]"]
    by blast
qed

subsection \<open>The total score\<close>

lemma TotalScore_word:
  "\<not> overError c \<Longrightarrow>
   TotalScore cfg c = GetScore c - quo64 (GetScore c) (AllowErrorMax cfg * 2) * of_nat (ErrorCount c)"
  by (simp add: TotalScore_def Let_def)

lemma sdiv_8000: "(8000 :: int) sdiv 200 = 40"
  by (simp add: signed_divide_int_def)

text \<open>
  Claim C3. While the run is not voided, \<open>TotalScore()\<close> is
  \<open>GetScore() - (GetScore() / (2 * AllowErrorMax)) * ErrorCount()\<close> in the arithmetic of
  \<open>int64\<close>, with the division truncating. In every state that the operations reach from a
  new manager, with \<open>0 < AllowErrorMax\<close> and \<open>AllowErrorMin \<le> AllowErrorMax\<close>, nothing
  wraps, and the equation holds for the integers that the words stand for. With
  \<open>AllowErrorMin = 5\<close> and \<open>AllowErrorMax = 100\<close>, after four calls of \<open>AppendError(nil)\<close>,
  one call with an error and \<open>AddScore(8000)\<close>: the call with the error returns \<open>nil\<close>,
  \<open>ErrorCount()\<close> is 1, the run is not voided and \<open>TotalScore()\<close> is 7960.
\<close>

theorem TotalScore_formula:
  "(\<not> overError c \<longrightarrow>
      TotalScore cfg c = GetScore c - quo64 (GetScore c) (AllowErrorMax cfg * 2) * of_nat (ErrorCount c)) \<and>
   (0 < AllowErrorMax cfg \<and> AllowErrorMin cfg \<le> AllowErrorMax cfg \<and> reachable cfg ev c \<and> \<not> overError c \<longrightarrow>
      sint (TotalScore cfg c) =
        sint (GetScore c) - (sint (GetScore c) sdiv (AllowErrorMax cfg * 2)) * int (ErrorCount c)) \<and>
   (AllowErrorMin cfg = 5 \<and> AllowErrorMax cfg = 100 \<longrightarrow>
      (let c1 = calls cfg [CallAppendError None, CallAppendError None, CallAppendError None,
                           CallAppendError None] NewManager;
           r = AppendError cfg (Some m) c1;
           c2 = AddScore 8000 (snd r)
       in fst r = None \<and> ErrorCount c2 = 1 \<and> \<not> overError c2 \<and> GetScore c2 = 8000 \<and>
          TotalScore cfg c2 = 7960))"
proof (intro conjI impI)
  assume "\<not> overError c"
  then show "TotalScore cfg c = GetScore c - quo64 (GetScore c) (AllowErrorMax cfg * 2) * of_nat (ErrorCount c)"
    by (rule TotalScore_word)
next
  assume a: "0 < AllowErrorMax cfg \<and> AllowErrorMin cfg \<le> AllowErrorMax cfg \<and> reachable cfg ev c \<and> \<not> overError c"
  then have "budget_inv cfg c" using reachable_budget_inv by blast
  with a have "int (ErrorCount c) \<le> AllowErrorMax cfg" by (simp add: budget_inv_def)
  with a show "sint (TotalScore cfg c) =
        sint (GetScore c) - (sint (GetScore c) sdiv (AllowErrorMax cfg * 2)) * int (ErrorCount c)"
    using TotalScore_sint by blast
next
  assume a: "AllowErrorMin cfg = 5 \<and> AllowErrorMax cfg = 100"
  have q: "quo64 0 20 = 0" by (simp add: quo64_def)
  have q2: "quo64 8000 200 = 40" by (simp add: quo64_def sdiv_8000)
  show "let c1 = calls cfg [CallAppendError None, CallAppendError None, CallAppendError None,
                           CallAppendError None] NewManager;
           r = AppendError cfg (Some m) c1;
           c2 = AddScore 8000 (snd r)
       in fst r = None \<and> ErrorCount c2 = 1 \<and> \<not> overError c2 \<and> GetScore c2 = 8000 \<and>
          TotalScore cfg c2 = 7960"
    using a
    by (simp add: AppendError_def errorLimit_def GetScore_def NewManager_def q q2 Let_def
        AddScore_def ErrorCount_def TotalScore_def)
qed


lemma exampleRun_reachable: "reachable exampleConfig exampleEnv exampleRun"
  unfolding exampleRun_def by (rule calls_reachable) (rule reach_new)

lemma exampleRun_eq: "exampleRun = NewManager\<lparr>errors := [''timeout''], score := 8000\<rparr>"
proof -
  have q: "quo64 0 20 = 0" by (simp add: quo64_def)
  show ?thesis
    by (simp add: exampleRun_def AppendError_def errorLimit_def GetScore_def NewManager_def q Let_def
        AddScore_def exampleConfig_def)
qed

theorem TotalScore_formula_witness:
  "\<not> overError exampleRun \<and> 0 < AllowErrorMax exampleConfig \<and>
   AllowErrorMin exampleConfig \<le> AllowErrorMax exampleConfig \<and>
   reachable exampleConfig exampleEnv exampleRun \<and>
   AllowErrorMin exampleConfig = 5 \<and> AllowErrorMax exampleConfig = 100 \<and>
   sint (TotalScore exampleConfig exampleRun) = 8000 - (8000 sdiv 200) * 1 \<and>
   TotalScore exampleConfig exampleRun = 7960"
proof -
  have h1: "\<not> overError exampleRun" by (simp add: exampleRun_eq NewManager_def)
  have h2: "0 < AllowErrorMax exampleConfig \<and> AllowErrorMin exampleConfig \<le> AllowErrorMax exampleConfig"
    by (simp add: exampleConfig_def)
  have h3: "AllowErrorMin exampleConfig = 5 \<and> AllowErrorMax exampleConfig = 100"
    by (simp add: exampleConfig_def)
  have g: "sint (GetScore exampleRun) = 8000" "int (ErrorCount exampleRun) = 1"
    by (simp_all add: exampleRun_eq GetScore_def ErrorCount_def)
  have q2: "quo64 8000 200 = 40" by (simp add: quo64_def sdiv_8000)
  have t: "TotalScore exampleConfig exampleRun = 7960"
    by (simp add: exampleRun_eq TotalScore_def GetScore_def ErrorCount_def NewManager_def
        exampleConfig_def q2 Let_def)
  show ?thesis
    using h1 h2 h3 exampleRun_reachable t g
      TotalScore_formula [of exampleRun exampleConfig exampleEnv "''timeout''"]
    by simp
qed

text \<open>
  Claim C10. In every state that the operations reach from a new manager, with
  \<open>0 < AllowErrorMax\<close> and \<open>AllowErrorMin \<le> AllowErrorMax\<close>: when the run is not voided
  and the score is not negative, fewer than \<open>AllowErrorMax\<close> errors are recorded, the
  demerit \<open>(GetScore() / (2 * AllowErrorMax)) * ErrorCount()\<close> is at most half the score,
  and \<open>TotalScore()\<close> lies between half the score and the score.
\<close>

theorem penalty_at_most_half:
  assumes "0 < AllowErrorMax cfg" and "AllowErrorMin cfg \<le> AllowErrorMax cfg"
    and "reachable cfg ev c" and "\<not> overError c" and "0 \<le> sint (GetScore c)"
  shows "int (ErrorCount c) < AllowErrorMax cfg \<and>
         (sint (GetScore c) sdiv (AllowErrorMax cfg * 2)) * int (ErrorCount c) \<le> sint (GetScore c) sdiv 2 \<and>
         sint (GetScore c) sdiv 2 \<le> sint (TotalScore cfg c) \<and>
         sint (TotalScore cfg c) \<le> sint (GetScore c)"
proof -
  have "budget_inv cfg c" using assms(1-3) by (rule reachable_budget_inv)
  with assms(4) have n: "int (ErrorCount c) < AllowErrorMax cfg" by (simp add: budget_inv_def)
  then have n': "int (ErrorCount c) \<le> AllowErrorMax cfg" by simp
  have d: "0 \<le> (sint (GetScore c) sdiv (AllowErrorMax cfg * 2)) * int (ErrorCount c) \<and>
           2 * ((sint (GetScore c) sdiv (AllowErrorMax cfg * 2)) * int (ErrorCount c)) \<le> sint (GetScore c)"
    using demerit_bounds(1) [OF assms(1) _ n' assms(5)] by simp
  have h: "sint (GetScore c) sdiv 2 = sint (GetScore c) div 2"
    using assms(5) by (simp add: sdiv_pos_nonneg)
  have t: "sint (TotalScore cfg c) =
         sint (GetScore c) - (sint (GetScore c) sdiv (AllowErrorMax cfg * 2)) * int (ErrorCount c)"
    using assms(4) assms(1) n' by (rule TotalScore_sint)
  show ?thesis using n d unfolding t h by linarith
qed

theorem penalty_at_most_half_witness:
  "0 < AllowErrorMax exampleConfig \<and> AllowErrorMin exampleConfig \<le> AllowErrorMax exampleConfig \<and>
   reachable exampleConfig exampleEnv exampleRun \<and> \<not> overError exampleRun \<and>
   0 \<le> sint (GetScore exampleRun) \<and>
   int (ErrorCount exampleRun) < AllowErrorMax exampleConfig \<and>
   sint (GetScore exampleRun) sdiv 2 \<le> sint (TotalScore exampleConfig exampleRun)"
proof -
  have h1: "0 < AllowErrorMax exampleConfig" by (simp add: exampleConfig_def)
  have h2: "AllowErrorMin exampleConfig \<le> AllowErrorMax exampleConfig" by (simp add: exampleConfig_def)
  have h4: "\<not> overError exampleRun" by (simp add: exampleRun_eq NewManager_def)
  have h5: "0 \<le> sint (GetScore exampleRun)" by (simp add: exampleRun_eq GetScore_def)
  show ?thesis
    using h1 h2 h4 h5 exampleRun_reachable
      penalty_at_most_half [OF h1 h2 exampleRun_reachable h4 h5]
    by simp
qed

subsection \<open>Purging retired investors\<close>

lemma purgeLoop_filter:
  "purgeLoop xs cleared closed =
     (cleared @ filter (\<lambda>i. \<not> ivIsRetired i) xs, closed @ filter ivIsRetired xs)"
  by (induction xs arbitrary: cleared closed) auto

lemma PurgeInvestor_eq:
  "PurgeInvestor c =
     c\<lparr>investors := filter (\<lambda>i. \<not> ivIsRetired i) (investors c),
       closedInvestors := closedInvestors c @ filter ivIsRetired (investors c)\<rparr>"
  by (simp add: PurgeInvestor_def purgeLoop_filter)

text \<open>
  Claim C9. \<open>PurgeInvestor\<close> keeps exactly the investors that do not report retired, in
  their order, calls \<open>Close\<close> on exactly the retired ones, and changes nothing else; a
  second call right after the first one changes nothing at all.
\<close>

theorem PurgeInvestor_exact:
  "investors (PurgeInvestor c) = filter (\<lambda>i. \<not> ivIsRetired i) (investors c) \<and>
   closedInvestors (PurgeInvestor c) = closedInvestors c @ filter ivIsRetired (investors c) \<and>
   PurgeInvestor c = c\<lparr>investors := investors (PurgeInvestor c),
                        closedInvestors := closedInvestors (PurgeInvestor c)\<rparr> \<and>
   PurgeInvestor (PurgeInvestor c) = PurgeInvestor c"
proof -
  have "filter ivIsRetired (filter (\<lambda>i. \<not> ivIsRetired i) (investors c)) = []"
    by (induction "investors c") (auto simp: filter_empty_conv)
  then show ?thesis by (simp add: PurgeInvestor_eq)
qed

theorem PurgeInvestor_exact_witness:
  "investors (PurgeInvestor (NewManager\<lparr>investors :=
      [exampleInvestor ''a'' False, exampleInvestor ''b'' True, exampleInvestor ''c'' False]\<rparr>))
     = [exampleInvestor ''a'' False, exampleInvestor ''c'' False] \<and>
   closedInvestors (PurgeInvestor (NewManager\<lparr>investors :=
      [exampleInvestor ''a'' False, exampleInvestor ''b'' True, exampleInvestor ''c'' False]\<rparr>))
     = [exampleInvestor ''b'' True]"
  using PurgeInvestor_exact [of "NewManager\<lparr>investors :=
      [exampleInvestor ''a'' False, exampleInvestor ''b'' True, exampleInvestor ''c'' False]\<rparr>"]
  by (simp add: exampleInvestor_def NewManager_def)

subsection \<open>The prefetch loop hands out every identity it mints\<close>

lemma RunIDFetcher_inv:
  "RunIDFetcher evs q out = Some (out', q') \<Longrightarrow>
   out' @ idlist q' @ held q' = out @ idlist q @ held q @ minted evs \<and>
   printed q' = printed q @ failureLines evs"
proof (induction evs q out rule: RunIDFetcher.induct)
  case (1 q out)
  then show ?case by simp
next
  case (2 dn ident err evs q out)
  from "2.prems" obtain q1 where p: "fetcherPass dn ident err q = Some q1"
    and r: "RunIDFetcher evs q1 out = Some (out', q')"
    by (auto split: option.splits)
  from p have at: "fetcherAt q = AtSelect"
    by (auto simp: fetcherPass_def split: if_splits)
  from p have q1: "idlist q1 = idlist q \<and> held q1 = (if dn then [] else [ident]) \<and>
      printed q1 = printed q @ failureLines [Pass dn ident err]"
    by (cases err) (auto simp: fetcherPass_def Let_def split: if_splits)
  have f: "failureLines (Pass dn ident err # evs) = failureLines [Pass dn ident err] @ failureLines evs"
    by (cases err) auto
  from "2.IH" [OF p r] q1 at f show ?case by simp
next
  case (3 evs q out)
  from "3.prems" obtain q1 where p: "fetcherSend q = Some q1"
    and r: "RunIDFetcher evs q1 out = Some (out', q')"
    by (auto split: option.splits)
  from p have "idlist q1 @ held q1 = idlist q @ held q \<and> printed q1 = printed q"
    by (auto simp: fetcherSend_def split: fetcher.splits if_splits)
  with "3.IH" [OF p r] show ?case by simp
next
  case (4 evs q out)
  from "4.prems" obtain ident q1 where p: "FetchNewID q = Some (ident, q1)"
    and r: "RunIDFetcher evs q1 (out @ [ident]) = Some (out', q')"
    by (auto split: option.splits)
  from p have "idlist q = ident # idlist q1 \<and> held q1 = held q \<and> printed q1 = printed q"
    by (auto simp: FetchNewID_def split: list.splits)
  with "4.IH" [OF p _ r] show ?case by simp
qed

lemma failed_subset_minted: "set (failed evs) \<subseteq> set (minted evs)"
  by (induction evs rule: failed.induct) auto

text \<open>
  Claim C6, as the code has it. When the registration of an identity fails, the loop
  prints the failure and goes on to send that same identity: it does not stop and it does
  not skip the identity. In every schedule of the loop and its consumers, the identities
  handed out by \<open>FetchNewID\<close>, then the ones in the buffer, then the one being sent are
  the minted identities in the order of minting, whether their registration failed or
  not, and one line is printed for each failure.
\<close>

theorem fetcher_keeps_failed_identities:
  "(fetcherAt q0 = AtSelect \<longrightarrow>
      fetcherPass False ident (Some m) q0 =
        Some (q0\<lparr>printed := printed q0 @ [''new bankid failed. '' @ m], fetcherAt := Sending ident\<rparr>)) \<and>
   (RunIDFetcher evs NewIDQueue [] = Some (out, q) \<longrightarrow>
      out @ idlist q @ held q = minted evs \<and>
      printed q = failureLines evs \<and>
      set (failed evs) \<subseteq> set (out @ idlist q @ held q))"
proof (intro conjI impI)
  assume "fetcherAt q0 = AtSelect"
  then show "fetcherPass False ident (Some m) q0 =
        Some (q0\<lparr>printed := printed q0 @ [''new bankid failed. '' @ m], fetcherAt := Sending ident\<rparr>)"
    by (simp add: fetcherPass_def)
next
  assume r: "RunIDFetcher evs NewIDQueue [] = Some (out, q)"
  from RunIDFetcher_inv [OF r]
  show m: "out @ idlist q @ held q = minted evs" and "printed q = failureLines evs"
    by (simp_all add: NewIDQueue_def)
  show "set (failed evs) \<subseteq> set (out @ idlist q @ held q)"
    unfolding m by (rule failed_subset_minted)
qed

theorem fetcher_keeps_failed_identities_witness:
  "fetcherAt NewIDQueue = AtSelect \<and>
   RunIDFetcher [Pass False ''id1'' (Some ''refused''), Send, Pass False ''id2'' None, Fetch] NewIDQueue []
     = Some ([''id1''], \<lparr> idlist = [], fetcherAt = Sending ''id2'',
                           printed = [''new bankid failed. refused''] \<rparr>) \<and>
   [''id1''] @ [] @ held \<lparr> idlist = [], fetcherAt = Sending ''id2'',
                           printed = [''new bankid failed. refused''] \<rparr>
     = minted [Pass False ''id1'' (Some ''refused''), Send, Pass False ''id2'' None, Fetch]"
proof -
  have a: "fetcherAt NewIDQueue = AtSelect" by (simp add: NewIDQueue_def)
  have b: "RunIDFetcher [Pass False ''id1'' (Some ''refused''), Send, Pass False ''id2'' None, Fetch] NewIDQueue []
     = Some ([''id1''], \<lparr> idlist = [], fetcherAt = Sending ''id2'',
                           printed = [''new bankid failed. refused''] \<rparr>)"
    by (simp add: NewIDQueue_def fetcherPass_def fetcherSend_def FetchNewID_def)
  show ?thesis
    using a b
      fetcher_keeps_failed_identities [of NewIDQueue "''id1''" "''refused''"
        "[Pass False ''id1'' (Some ''refused''), Send, Pass False ''id2'' None, Fetch]"
        "[''id1'']" "\<lparr> idlist = [], fetcherAt = Sending ''id2'', printed = [''new bankid failed. refused''] \<rparr>"]
    by simp
qed

text \<open>
  The claim C6 as it is stated fails: an identity whose registration failed is put into
  the buffer and \<open>FetchNewID\<close> returns it.
\<close>

theorem failed_identity_is_handed_out:
  "RunIDFetcher [Pass False ''id1'' (Some ''refused''), Send, Fetch] NewIDQueue []
     = Some ([''id1''], NewIDQueue\<lparr>printed := [''new bankid failed. refused'']\<rparr>) \<and>
   ''id1'' \<in> set (failed [Pass False ''id1'' (Some ''refused''), Send, Fetch]) \<and>
   idlist (the (fetcherSend (the (fetcherPass False ''id1'' (Some ''refused'') NewIDQueue)))) = [''id1'']"
  by (simp add: NewIDQueue_def fetcherPass_def fetcherSend_def FetchNewID_def)

subsection \<open>The loops of Next\<close>

lemma admitted_append: "admitted (xs @ ys) = admitted xs @ admitted ys"
  by (induction xs rule: admitted.induct) auto

lemma work_append: "work (xs @ ys) = work xs @ work ys"
  by (induction xs rule: work.induct) auto

lemma startedBy_append: "startedBy (xs @ ys) = startedBy xs @ startedBy ys"
  by (induction xs rule: startedBy.induct) auto

lemma odd_nat_iff: "0 \<le> i \<Longrightarrow> (i mod 2 = 1) = odd (nat i)" for i :: int
  by (simp add: even_nat_iff odd_iff_mod_2_eq_one)

lemma upt_nat_step: "0 \<le> i \<Longrightarrow> i < num \<Longrightarrow> [nat i..<nat num] = nat i # [nat (i + 1)..<nat num]" for i num :: int
  by (simp add: upt_conv_Cons nat_add_distrib)

lemma upt_nat_done: "\<not> i < num \<Longrightarrow> [nat i..<nat num] = []" for i num :: int
  by simp

lemma addInvestorsFrom_Inr:
  "addInvestorsFrom ev num ua p i tasks c = (Inr tasks', c') \<Longrightarrow> 0 \<le> i \<Longrightarrow>
   admitted tasks' = admitted tasks @ map (\<lambda>j. requested j ua p) [nat i..<nat num] \<and>
   work tasks' = work tasks \<and>
   c' = c\<lparr>newClientCalls := newClientCalls c + length [nat i..<nat num]\<rparr>"
proof (induction ev num ua p i tasks c rule: addInvestorsFrom.induct)
  case (1 ev num ua p i tasks c)
  show ?case
  proof (cases "i < num")
    case False
    with "1.prems" show ?thesis
      by (simp add: addInvestorsFrom.simps [of ev num ua p i])
  next
    case True
    let ?c1 = "c\<lparr>newClientCalls := Suc (newClientCalls c)\<rparr>"
    show ?thesis
    proof (cases "envNewClient ev (newClientCalls c)")
      case (Inl m)
      with True "1.prems" show ?thesis
        by (simp add: addInvestorsFrom.simps [of ev num ua p i] newClient_def)
    next
      case (Inr cl)
      define inv where "inv = (if i mod 2 = 1
                         then NewRandomInvestor cl (p * 1000) 0 ua (p - 2)
                         else NewRandomInvestor cl 0 (ua * 100) ua (p + 5))"
      have nc: "newClient ev c = (Inr cl, ?c1)" using Inr by (simp add: newClient_def)
      have st: "ivStrategy inv = requested (nat i) ua p"
        using "1.prems"(2) by (simp add: inv_def requested_def NewRandomInvestor_def odd_nat_iff)
      have rec: "addInvestorsFrom ev num ua p (i + 1) (tasks @ [ExecTask inv]) ?c1 = (Inr tasks', c')"
        using "1.prems"(1) True nc
        by (simp add: addInvestorsFrom.simps [of ev num ua p i] inv_def Let_def)
      have "0 \<le> i + 1" using "1.prems"(2) by simp
      from "1.IH" [OF True nc [symmetric] refl inv_def rec this]
      show ?thesis
        using st "1.prems"(2) True
        by (simp add: admitted_append work_append upt_nat_step [of i num] nat_add_distrib)
    qed
  qed
qed


lemma calls_only_refl: "\<exists>k. c = c\<lparr>newClientCalls := k\<rparr>"
  by (rule exI [of _ "newClientCalls c"]) simp

lemma addInvestorsFrom_Inl:
  "addInvestorsFrom ev num ua p i tasks c = (Inl e, c') \<Longrightarrow>
   (\<exists>m. e = ErrNewClient m) \<and> (\<exists>k. c' = c\<lparr>newClientCalls := k\<rparr>)"
proof (induction ev num ua p i tasks c rule: addInvestorsFrom.induct)
  case (1 ev num ua p i tasks c)
  show ?case
  proof (cases "i < num")
    case False
    with "1.prems" show ?thesis
      by (simp add: addInvestorsFrom.simps [of ev num ua p i])
  next
    case True
    let ?c1 = "c\<lparr>newClientCalls := Suc (newClientCalls c)\<rparr>"
    show ?thesis
    proof (cases "envNewClient ev (newClientCalls c)")
      case (Inl m)
      with True "1.prems" show ?thesis
        by (auto simp add: addInvestorsFrom.simps [of ev num ua p i] newClient_def)
    next
      case (Inr cl)
      define inv where "inv = (if i mod 2 = 1
                         then NewRandomInvestor cl (p * 1000) 0 ua (p - 2)
                         else NewRandomInvestor cl 0 (ua * 100) ua (p + 5))"
      have nc: "newClient ev c = (Inr cl, ?c1)" using Inr by (simp add: newClient_def)
      have rec: "addInvestorsFrom ev num ua p (i + 1) (tasks @ [ExecTask inv]) ?c1 = (Inl e, c')"
        using "1.prems"(1) True nc
        by (simp add: addInvestorsFrom.simps [of ev num ua p i] inv_def Let_def)
      from "1.IH" [OF True nc [symmetric] refl inv_def rec]
      show ?thesis by auto
    qed
  qed
qed

lemma addInvestorsFrom_total:
  "clientsOK ev \<Longrightarrow> \<exists>tasks' c'. addInvestorsFrom ev num ua p i tasks c = (Inr tasks', c')"
proof (induction ev num ua p i tasks c rule: addInvestorsFrom.induct)
  case (1 ev num ua p i tasks c)
  show ?case
  proof (cases "i < num")
    case False
    then show ?thesis
      by (simp add: addInvestorsFrom.simps [of ev num ua p i])
  next
    case True
    let ?c1 = "c\<lparr>newClientCalls := Suc (newClientCalls c)\<rparr>"
    from "1.prems" obtain cl where Inr: "envNewClient ev (newClientCalls c) = Inr cl"
      unfolding clientsOK_def by blast
    define inv where "inv = (if i mod 2 = 1
                       then NewRandomInvestor cl (p * 1000) 0 ua (p - 2)
                       else NewRandomInvestor cl 0 (ua * 100) ua (p + 5))"
    have nc: "newClient ev c = (Inr cl, ?c1)" using Inr by (simp add: newClient_def)
    have "addInvestorsFrom ev num ua p i tasks c =
          addInvestorsFrom ev num ua p (i + 1) (tasks @ [ExecTask inv]) ?c1"
      using True nc by (simp add: addInvestorsFrom.simps [of ev num ua p i] inv_def Let_def)
    with "1.IH" [OF True nc [symmetric] refl inv_def "1.prems"]
    show ?thesis by simp
  qed
qed

lemma addInvestors_Inr:
  "addInvestors ev num ua p tasks c = (Inr tasks', c') \<Longrightarrow>
   admitted tasks' = admitted tasks @ request num ua p \<and> work tasks' = work tasks \<and>
   c' = c\<lparr>newClientCalls := newClientCalls c + nat num\<rparr>"
  using addInvestorsFrom_Inr [of ev num ua p 0 tasks c tasks' c']
  by (simp add: addInvestors_def request_def)

lemma addInvestors_Inl:
  "addInvestors ev num ua p tasks c = (Inl e, c') \<Longrightarrow>
   (\<exists>m. e = ErrNewClient m) \<and> (\<exists>k. c' = c\<lparr>newClientCalls := k\<rparr>)"
  unfolding addInvestors_def by (rule addInvestorsFrom_Inl)

lemma addInvestors_total:
  "clientsOK ev \<Longrightarrow> \<exists>tasks' c'. addInvestors ev num ua p tasks c = (Inr tasks', c')"
  unfolding addInvestors_def by (rule addInvestorsFrom_total)

lemma tradesLoop_Inr:
  "tradesLoop cfg ev ts tasks n c = (Inr (tasks', n'), c') \<Longrightarrow>
   admitted tasks' = admitted tasks @
      concat (map (\<lambda>t. request (AddUsersOnShare cfg) (Amount t) (Price t)) ts) \<and>
   work tasks' = work tasks \<and> n' = n + int (length ts) \<and>
   (\<exists>k. c' = c\<lparr>newClientCalls := k\<rparr>)"
proof (induction ts arbitrary: tasks n c)
  case Nil
  then show ?case using calls_only_refl [of c] by simp
next
  case (Cons t ts)
  obtain r c1 where ai: "addInvestors ev (AddUsersOnShare cfg) (Amount t) (Price t) tasks c = (r, c1)"
    by (cases "addInvestors ev (AddUsersOnShare cfg) (Amount t) (Price t) tasks c")
  show ?case
  proof (cases r)
    case (Inl e)
    with Cons.prems ai show ?thesis by simp
  next
    case (Inr tasks1)
    with Cons.prems ai have rec: "tradesLoop cfg ev ts tasks1 (n + 1) c1 = (Inr (tasks', n'), c')"
      by simp
    from addInvestors_Inr [OF ai [unfolded Inr]] Cons.IH [OF rec]
    show ?thesis by auto
  qed
qed

lemma tradesLoop_Inl:
  "tradesLoop cfg ev ts tasks n c = (Inl e, c') \<Longrightarrow>
   (\<exists>m. e = ErrNewClient m) \<and> (\<exists>k. c' = c\<lparr>newClientCalls := k\<rparr>)"
proof (induction ts arbitrary: tasks n c)
  case Nil
  then show ?case by simp
next
  case (Cons t ts)
  obtain r c1 where ai: "addInvestors ev (AddUsersOnShare cfg) (Amount t) (Price t) tasks c = (r, c1)"
    by (cases "addInvestors ev (AddUsersOnShare cfg) (Amount t) (Price t) tasks c")
  show ?case
  proof (cases r)
    case (Inl e1)
    with Cons.prems ai addInvestors_Inl [of ev "AddUsersOnShare cfg" "Amount t" "Price t" tasks c e1 c1]
    show ?thesis by simp
  next
    case (Inr tasks1)
    with Cons.prems ai have rec: "tradesLoop cfg ev ts tasks1 (n + 1) c1 = (Inl e, c')"
      by simp
    from addInvestors_Inr [OF ai [unfolded Inr]] Cons.IH [OF rec]
    show ?thesis by auto
  qed
qed

lemma tradesLoop_total:
  "clientsOK ev \<Longrightarrow> \<exists>tasks' n' c'. tradesLoop cfg ev ts tasks n c = (Inr (tasks', n'), c')"
proof (induction ts arbitrary: tasks n c)
  case Nil
  then show ?case by simp
next
  case (Cons t ts)
  from addInvestors_total [OF Cons.prems]
  obtain tasks1 c1 where "addInvestors ev (AddUsersOnShare cfg) (Amount t) (Price t) tasks c = (Inr tasks1, c1)"
    by blast
  with Cons.IH [OF Cons.prems, of tasks1 "n + 1" c1] show ?case by simp
qed


lemma latestPrice_Nil: "latestPrice d [] = d"
  by (simp add: latestPrice_def)

lemma latestPrice_Cons:
  "latestPrice d (i # rest) =
     (if eligible i then latestPrice (ivLatestTradePrice i) rest else latestPrice d rest)"
  by (cases "rev (filter eligible rest)") (simp_all add: latestPrice_def)

lemma shareRequests_Nil: "shareRequests cfg [] = []"
  by (simp add: shareRequests_def)

lemma shareRequests_Cons:
  "shareRequests cfg (i # rest) =
     (if eligible i
      then concat (map (\<lambda>t. request (AddUsersOnShare cfg) (Amount t) (Price t)) (ivSharedTrades i))
           @ shareRequests cfg rest
      else shareRequests cfg rest)"
  by (simp add: shareRequests_def)

lemma shareLoop_skip:
  "\<not> eligible i \<Longrightarrow> shareLoop cfg ev (i # rest) tasks lp n c = shareLoop cfg ev rest tasks lp n c"
  by (auto simp: eligible_def)

lemma shareLoop_step:
  "eligible i \<Longrightarrow> shareLoop cfg ev (i # rest) tasks lp n c =
     (case tradesLoop cfg ev (ivSharedTrades i) (if ivHasNext i then tasks @ [NextTask i] else tasks) n c of
        (Inl e, c1) \<Rightarrow> (Inl e, c1)
      | (Inr (tasks2, n2), c1) \<Rightarrow> shareLoop cfg ev rest tasks2 (ivLatestTradePrice i) n2 c1)"
  by (simp add: eligible_def Let_def)

lemma shareLoop_Inr:
  "shareLoop cfg ev invs tasks lp n c = (Inr (tasks', lp', n'), c') \<Longrightarrow>
   admitted tasks' = admitted tasks @ shareRequests cfg invs \<and>
   work tasks' = work tasks @ map NextTask (filter (\<lambda>i. eligible i \<and> ivHasNext i) invs) \<and>
   lp' = latestPrice lp invs \<and>
   n' = n + int (length (concat (map ivSharedTrades (filter eligible invs)))) \<and>
   (\<exists>k. c' = c\<lparr>newClientCalls := k\<rparr>)"
proof (induction invs arbitrary: tasks lp n c)
  case Nil
  then show ?case using calls_only_refl [of c]
    by (simp add: latestPrice_Nil shareRequests_Nil)
next
  case (Cons i rest)
  show ?case
  proof (cases "eligible i")
    case False
    with Cons.prems have "shareLoop cfg ev rest tasks lp n c = (Inr (tasks', lp', n'), c')"
      by (simp add: shareLoop_skip del: shareLoop.simps)
    from Cons.IH [OF this] False show ?thesis
      by (simp add: latestPrice_Cons shareRequests_Cons)
  next
    case True
    let ?t1 = "if ivHasNext i then tasks @ [NextTask i] else tasks"
    obtain r c1 where tl: "tradesLoop cfg ev (ivSharedTrades i) ?t1 n c = (r, c1)"
      by (cases "tradesLoop cfg ev (ivSharedTrades i) ?t1 n c")
    show ?thesis
    proof (cases r)
      case (Inl e)
      with Cons.prems True tl show ?thesis by (simp only: shareLoop_step) simp
    next
      case (Inr q)
      obtain tasks2 n2 where q: "q = (tasks2, n2)" by (cases q)
      from Cons.prems True tl Inr q
      have rec: "shareLoop cfg ev rest tasks2 (ivLatestTradePrice i) n2 c1 = (Inr (tasks', lp', n'), c')"
        by (simp only: shareLoop_step) simp
      have t1: "admitted ?t1 = admitted tasks \<and>
                work ?t1 = work tasks @ (if ivHasNext i then [NextTask i] else [])"
        by (simp add: admitted_append work_append)
      from tradesLoop_Inr [OF tl [unfolded Inr q]] Cons.IH [OF rec] t1 True
      show ?thesis
        by (auto simp: latestPrice_Cons shareRequests_Cons)
    qed
  qed
qed

lemma shareLoop_Inl:
  "shareLoop cfg ev invs tasks lp n c = (Inl e, c') \<Longrightarrow>
   (\<exists>m. e = ErrNewClient m) \<and> (\<exists>k. c' = c\<lparr>newClientCalls := k\<rparr>)"
proof (induction invs arbitrary: tasks lp n c)
  case Nil
  then show ?case by simp
next
  case (Cons i rest)
  show ?case
  proof (cases "eligible i")
    case False
    with Cons.prems have "shareLoop cfg ev rest tasks lp n c = (Inl e, c')"
      by (simp add: shareLoop_skip del: shareLoop.simps)
    from Cons.IH [OF this] show ?thesis .
  next
    case True
    let ?t1 = "if ivHasNext i then tasks @ [NextTask i] else tasks"
    obtain r c1 where tl: "tradesLoop cfg ev (ivSharedTrades i) ?t1 n c = (r, c1)"
      by (cases "tradesLoop cfg ev (ivSharedTrades i) ?t1 n c")
    show ?thesis
    proof (cases r)
      case (Inl e1)
      with Cons.prems True tl have "e1 = e \<and> c1 = c'" by (simp only: shareLoop_step) simp
      with tradesLoop_Inl [OF tl [unfolded Inl]] show ?thesis by simp
    next
      case (Inr q)
      obtain tasks2 n2 where q: "q = (tasks2, n2)" by (cases q)
      from Cons.prems True tl Inr q
      have rec: "shareLoop cfg ev rest tasks2 (ivLatestTradePrice i) n2 c1 = (Inl e, c')"
        by (simp only: shareLoop_step) simp
      from tradesLoop_Inr [OF tl [unfolded Inr q]] Cons.IH [OF rec]
      show ?thesis by auto
    qed
  qed
qed

lemma shareLoop_total:
  "clientsOK ev \<Longrightarrow> \<exists>tasks' lp' n' c'. shareLoop cfg ev invs tasks lp n c = (Inr (tasks', lp', n'), c')"
proof (induction invs arbitrary: tasks lp n c)
  case Nil
  then show ?case by simp
next
  case (Cons i rest)
  show ?case
  proof (cases "eligible i")
    case False
    with Cons.IH [OF Cons.prems, of tasks lp n c] show ?thesis by (simp add: shareLoop_skip del: shareLoop.simps)
  next
    case True
    let ?t1 = "if ivHasNext i then tasks @ [NextTask i] else tasks"
    from tradesLoop_total [OF Cons.prems]
    obtain tasks2 n2 c1 where "tradesLoop cfg ev (ivSharedTrades i) ?t1 n c = (Inr (tasks2, n2), c1)"
      by blast
    with Cons.IH [OF Cons.prems, of tasks2 "ivLatestTradePrice i" n2 c1] True
    show ?thesis by (simp only: shareLoop_step) simp
  qed
qed

lemma startLoop_eq:
  "0 < start \<Longrightarrow>
   startLoop invs start tasks =
     tasks @ map StartTask (take (nat start) (filter (\<lambda>i. \<not> ivIsStarted i) invs))"
proof (induction invs arbitrary: start tasks)
  case Nil
  then show ?case by simp
next
  case (Cons i rest)
  show ?case
  proof (cases "ivIsStarted i")
    case True
    with Cons show ?thesis by simp
  next
    case False
    show ?thesis
    proof (cases "start - 1 \<le> 0")
      case True
      with Cons.prems have "start = 1" by simp
      with False show ?thesis by simp
    next
      case F: False
      then have p: "0 < start - 1" by simp
      have "nat start = Suc (nat (start - 1))" using p by simp
      with False F Cons.IH [OF p, of "tasks @ [StartTask i]"] show ?thesis
        by simp
    qed
  qed
qed

lemma naturalPost_stop:
  assumes "sint sc < sint (nextScore (level c)) \<or> AllowErrorMin cfg < int (ErrorCount c)"
  shows "naturalPost cfg sc price tasks c (Inr tasks, c)"
proof -
  have "\<exists>lv lg n. c = c\<lparr>level := lv, logged := lg, newClientCalls := n\<rparr>"
    by (rule exI [of _ "level c"], rule exI [of _ "logged c"], rule exI [of _ "newClientCalls c"]) simp
  moreover have "\<exists>k. admitted tasks = admitted tasks @ naturalRequests cfg price (level c) k \<and>
                work tasks = work tasks \<and>
                level c = level c + of_nat k \<and>
                logged c = logged c @ replicate k LogNaturalGrowth \<and>
                (\<forall>j<k. \<not> sint sc < sint (nextScore (level c + of_nat j))) \<and>
                (0 < k \<longrightarrow> \<not> AllowErrorMin cfg < int (ErrorCount c)) \<and>
                (sint sc < sint (nextScore (level c)) \<or> AllowErrorMin cfg < int (ErrorCount c))"
    using assms by (intro exI [of _ 0]) simp
  ultimately show ?thesis unfolding naturalPost_def by simp
qed

lemma naturalPost_Inl:
  assumes "addInvestors ev (AddUsersOnNatural cfg) (level c + 1 + 1) price tasks
             (c\<lparr>level := level c + 1, logged := logged c @ [LogNaturalGrowth]\<rparr>) = (Inl e, c3)"
  shows "naturalPost cfg sc price tasks c (Inl e, c3)"
proof -
  from addInvestors_Inl [OF assms] obtain m k where
    "e = ErrNewClient m" and
    "c3 = c\<lparr>level := level c + 1, logged := logged c @ [LogNaturalGrowth], newClientCalls := k\<rparr>"
    by auto
  then show ?thesis unfolding naturalPost_def by auto
qed

lemma naturalPost_step:
  assumes g: "\<not> sint sc < sint (nextScore (level c))" "\<not> AllowErrorMin cfg < int (ErrorCount c)"
    and ai: "addInvestors ev (AddUsersOnNatural cfg) (level c + 1 + 1) price tasks
             (c\<lparr>level := level c + 1, logged := logged c @ [LogNaturalGrowth]\<rparr>) = (Inr tasks1, c3)"
    and post: "naturalPost cfg sc price tasks1 c3 y"
  shows "naturalPost cfg sc price tasks c y"
proof -
  from addInvestors_Inr [OF ai] have
    a1: "admitted tasks1 = admitted tasks @ request (AddUsersOnNatural cfg) (level c + 1 + 1) price"
    and w1: "work tasks1 = work tasks"
    and c3: "c3 = c\<lparr>level := level c + 1, logged := logged c @ [LogNaturalGrowth],
                    newClientCalls := newClientCalls c + nat (AddUsersOnNatural cfg)\<rparr>"
    by simp_all
  have l3: "level c3 = level c + 1" and e3: "ErrorCount c3 = ErrorCount c"
    and lg3: "logged c3 = logged c @ [LogNaturalGrowth]"
    by (simp_all add: c3 ErrorCount_def)
  from post obtain lv lg n where f: "snd y = c3\<lparr>level := lv, logged := lg, newClientCalls := n\<rparr>"
    unfolding naturalPost_def by blast
  have frame: "\<exists>lv lg n. snd y = c\<lparr>level := lv, logged := lg, newClientCalls := n\<rparr>"
    unfolding f c3 by auto
  show ?thesis
  proof (cases "fst y")
    case (Inl e)
    with post frame show ?thesis unfolding naturalPost_def by simp
  next
    case (Inr tasks')
    with post obtain k where
      k1: "admitted tasks' = admitted tasks1 @ naturalRequests cfg price (level c3) k"
      and k2: "work tasks' = work tasks1"
      and k3: "level (snd y) = level c3 + of_nat k"
      and k4: "logged (snd y) = logged c3 @ replicate k LogNaturalGrowth"
      and k5: "\<forall>j<k. \<not> sint sc < sint (nextScore (level c3 + of_nat j))"
      and k7: "sint sc < sint (nextScore (level (snd y))) \<or> AllowErrorMin cfg < int (ErrorCount c3)"
      unfolding naturalPost_def by auto
    have j: "\<forall>j<Suc k. \<not> sint sc < sint (nextScore (level c + of_nat j))"
    proof (intro allI impI)
      fix j assume "j < Suc k"
      show "\<not> sint sc < sint (nextScore (level c + of_nat j))"
      proof (cases j)
        case 0
        with g(1) show ?thesis by simp
      next
        case (Suc j')
        with \<open>j < Suc k\<close> k5 have "\<not> sint sc < sint (nextScore (level c3 + of_nat j'))" by simp
        moreover have "level c + of_nat j = level c3 + of_nat j'" using Suc by (simp add: l3)
        ultimately show ?thesis by simp
      qed
    qed
    have n1: "admitted tasks' = admitted tasks @ naturalRequests cfg price (level c) (Suc k)"
      unfolding k1 a1 l3 by simp
    have n2: "work tasks' = work tasks" unfolding k2 w1 ..
    have n3: "level (snd y) = level c + of_nat (Suc k)" unfolding k3 l3 by simp
    have n4: "logged (snd y) = logged c @ replicate (Suc k) LogNaturalGrowth"
      unfolding k4 lg3 by simp
    have n7: "sint sc < sint (nextScore (level (snd y))) \<or> AllowErrorMin cfg < int (ErrorCount c)"
      using k7 unfolding e3 .
    have "admitted tasks' = admitted tasks @ naturalRequests cfg price (level c) (Suc k) \<and>
          work tasks' = work tasks \<and>
          level (snd y) = level c + of_nat (Suc k) \<and>
          logged (snd y) = logged c @ replicate (Suc k) LogNaturalGrowth \<and>
          (\<forall>j<Suc k. \<not> sint sc < sint (nextScore (level c + of_nat j))) \<and>
          (0 < Suc k \<longrightarrow> \<not> AllowErrorMin cfg < int (ErrorCount c)) \<and>
          (sint sc < sint (nextScore (level (snd y))) \<or> AllowErrorMin cfg < int (ErrorCount c))"
      using n1 n2 n3 n4 j g(2) n7 by blast
    then have "case fst y of
         Inl e \<Rightarrow> (\<exists>m. e = ErrNewClient m)
       | Inr tasks' \<Rightarrow>
           (\<exists>k. admitted tasks' = admitted tasks @ naturalRequests cfg price (level c) k \<and>
                work tasks' = work tasks \<and>
                level (snd y) = level c + of_nat k \<and>
                logged (snd y) = logged c @ replicate k LogNaturalGrowth \<and>
                (\<forall>j<k. \<not> sint sc < sint (nextScore (level c + of_nat j))) \<and>
                (0 < k \<longrightarrow> \<not> AllowErrorMin cfg < int (ErrorCount c)) \<and>
                (sint sc < sint (nextScore (level (snd y))) \<or> AllowErrorMin cfg < int (ErrorCount c)))"
      unfolding Inr sum.case by (rule exI [of _ "Suc k"])
    with frame show ?thesis unfolding naturalPost_def by (rule conjI)
  qed
qed

lemma naturalLoop_post:
  assumes a: "naturalLoop cfg ev sc lp tasks c = Some y"
  shows "naturalPost cfg sc lp tasks c y"
proof (rule naturalLoop.raw_induct [where P = "\<lambda>cfg ev sc lp tasks c y. naturalPost cfg sc lp tasks c y", OF _ a])
  fix f :: "config \<Rightarrow> env \<Rightarrow> int64 \<Rightarrow> int64 \<Rightarrow> task list \<Rightarrow> manager \<Rightarrow> ((bench_error + task list) \<times> manager) option"
    and cfg :: config and ev :: env and sc lp :: int64 and tasks :: "task list"
    and c :: manager and y :: "(bench_error + task list) \<times> manager"
  assume IH: "\<And>cfg ev sc lp tasks c y. f cfg ev sc lp tasks c = Some y \<Longrightarrow> naturalPost cfg sc lp tasks c y"
  let ?c2 = "c\<lparr>level := level c + 1, logged := logged c @ [LogNaturalGrowth]\<rparr>"
  assume eq: "(if sint sc < sint (nextScore (level c)) then Some (Inr tasks, c)
          else if AllowErrorMin cfg < int (ErrorCount c)
               then Some (Inr tasks, c)
               else let c1 = c\<lparr>level := level c + 1\<rparr>;
                        c2 = c1\<lparr>logged := logged c1 @ [LogNaturalGrowth]\<rparr>
                    in case addInvestors ev (AddUsersOnNatural cfg)
                             (level c2 + 1) lp tasks c2 of
                       (Inl e, c3) \<Rightarrow> Some (Inl e, c3)
                       | (Inr tasks1, c3) \<Rightarrow> f cfg ev sc lp tasks1 c3) = Some y"
  show "naturalPost cfg sc lp tasks c y"
  proof (cases "sint sc < sint (nextScore (level c)) \<or> AllowErrorMin cfg < int (ErrorCount c)")
    case True
    with eq have "y = (Inr tasks, c)" by (auto split: if_splits)
    with naturalPost_stop [OF True] show ?thesis by simp
  next
    case False
    obtain r c3 where ai: "addInvestors ev (AddUsersOnNatural cfg) (level c + 1 + 1) lp tasks ?c2 = (r, c3)"
      by (cases "addInvestors ev (AddUsersOnNatural cfg) (level c + 1 + 1) lp tasks ?c2")
    show ?thesis
    proof (cases r)
      case (Inl e)
      with False eq ai have "y = (Inl e, c3)" by (auto simp: Let_def)
      with naturalPost_Inl [OF ai [unfolded Inl]] show ?thesis by simp
    next
      case (Inr tasks1)
      with False eq ai have "f cfg ev sc lp tasks1 c3 = Some y" by (simp add: Let_def)
      from naturalPost_step [OF _ _ ai [unfolded Inr] IH [OF this]] False
      show ?thesis by simp
    qed
  qed
qed

lemma pow_le_56: "n \<le> 56 \<Longrightarrow> (2::int) ^ n * 100 < 2 ^ 63"
proof -
  assume "n \<le> 56"
  then have "(2::int) ^ n \<le> 2 ^ 56" by (intro power_increasing) simp_all
  then have "(2::int) ^ n * 100 \<le> 2 ^ 56 * 100" by simp
  also have "\<dots> < 2 ^ 63" by simp
  finally show ?thesis .
qed

lemma pow_lt_56: "(2::int) ^ n * 100 < 2 ^ 56 * 100 \<Longrightarrow> n < 56"
proof (rule ccontr)
  assume a: "(2::int) ^ n * 100 < 2 ^ 56 * 100" and "\<not> n < 56"
  then have "56 \<le> n" by simp
  then have "(2::int) ^ 56 \<le> 2 ^ n" by (intro power_increasing) simp_all
  with a show False by simp
qed

lemma nextScore_exact: "unat l \<le> 56 \<Longrightarrow> sint (nextScore l) = 2 ^ unat l * 100"
proof -
  assume l: "unat l \<le> 56"
  have "nextScore l = word_of_int (2 ^ unat l * 100)"
    by (simp add: nextScore_def push_bit_eq_mult)
  moreover have "- (2 ^ 63) \<le> (2::int) ^ unat l * 100"
    by (rule order_trans [of _ 0]) simp_all
  ultimately show ?thesis using pow_le_56 [OF l] by (simp only: sint_word_of_int64)
qed


lemma unat_add_of_nat64: "unat l + k \<le> 56 \<Longrightarrow> unat (l + of_nat k :: uint) = unat l + k"
proof -
  assume a: "unat l + k \<le> 56"
  then have k: "unat (of_nat k :: uint) = k" by (simp add: unat_of_nat)
  have "unat l + unat (of_nat k :: uint) < 2 ^ LENGTH(64)" using a k by simp
  then show ?thesis using k by (simp only: unat_add_lem [THEN iffD1])
qed

lemma unat_Suc64: "unat l < 56 \<Longrightarrow> unat (l + 1 :: uint) = Suc (unat l)"
  using unat_add_of_nat64 [of l 1] by simp

lemma crossed_bound:
  assumes l: "unat l \<le> 56" and sc: "sint sc < 2 ^ 56 * 100"
    and cr: "\<forall>j<k. \<not> sint sc < sint (nextScore (l + of_nat j))"
  shows "unat l + k \<le> 56"
  using cr
proof (induction k)
  case 0
  with l show ?case by simp
next
  case (Suc k)
  then have le: "unat l + k \<le> 56" by simp
  have u: "unat (l + of_nat k) = unat l + k" using le by (rule unat_add_of_nat64)
  have "sint (nextScore (l + of_nat k)) = 2 ^ (unat l + k) * 100"
    using nextScore_exact [of "l + of_nat k"] le u by simp
  moreover have "\<not> sint sc < sint (nextScore (l + of_nat k))" using Suc.prems by simp
  ultimately have "(2::int) ^ (unat l + k) * 100 < 2 ^ 56 * 100" using sc by linarith
  then have "unat l + k < 56" by (rule pow_lt_56)
  then show ?case by simp
qed

lemma naturalLoop_total:
  assumes ok: "clientsOK ev" and sc: "sint sc < 2 ^ 56 * 100"
  shows "unat (level c) \<le> 56 \<Longrightarrow>
         \<exists>tasks' c'. naturalLoop cfg ev sc lp tasks c = Some (Inr tasks', c')"
proof (induction "56 - unat (level c)" arbitrary: c tasks rule: less_induct)
  case less
  show ?case
  proof (cases "sint sc < sint (nextScore (level c)) \<or> AllowErrorMin cfg < int (ErrorCount c)")
    case True
    then show ?thesis by (subst naturalLoop.simps) auto
  next
    case False
    let ?c2 = "c\<lparr>level := level c + 1, logged := logged c @ [LogNaturalGrowth]\<rparr>"
    from False have "\<not> sint sc < 2 ^ unat (level c) * 100"
      using nextScore_exact [OF less.prems] by simp
    with sc have "(2::int) ^ unat (level c) * 100 < 2 ^ 56 * 100" by linarith
    then have lt: "unat (level c) < 56" by (rule pow_lt_56)
    from addInvestors_total [OF ok]
    obtain tasks1 c3 where ai: "addInvestors ev (AddUsersOnNatural cfg) (level c + 1 + 1) lp tasks ?c2 = (Inr tasks1, c3)"
      by blast
    from addInvestors_Inr [OF ai] have l3: "level c3 = level c + 1" by simp
    have u3: "unat (level c3) = Suc (unat (level c))" unfolding l3 using lt by (rule unat_Suc64)
    have "\<exists>tasks' c'. naturalLoop cfg ev sc lp tasks1 c3 = Some (Inr tasks', c')"
      using less.hyps [of c3 tasks1] u3 lt by simp
    moreover have "naturalLoop cfg ev sc lp tasks c = naturalLoop cfg ev sc lp tasks1 c3"
      using False ai by (subst naturalLoop.simps) (simp add: Let_def)
    ultimately show ?thesis by simp
  qed
qed

lemma naturalRequests_concat:
  "naturalRequests cfg price l k =
     concat (map (\<lambda>j. request (AddUsersOnNatural cfg) (l + of_nat j + 1 + 1) price) [0..<k])"
proof (induction k arbitrary: l)
  case 0
  then show ?case by simp
next
  case (Suc k)
  have "map (\<lambda>j. request (AddUsersOnNatural cfg) (l + of_nat j + 1 + 1) price) [0..<Suc k] =
        request (AddUsersOnNatural cfg) (l + 1 + 1) price #
        map (\<lambda>j. request (AddUsersOnNatural cfg) (l + 1 + of_nat j + 1 + 1) price) [0..<k]"
    by (simp only: upt_conv_Cons [of 0 "Suc k"] map_Suc_upt [symmetric] list.map map_map o_def)
       (simp add: ac_simps)
  then show ?case using Suc.IH [of "l + 1"] by simp
qed

subsection \<open>The structure of a tick\<close>

lemma admitted_StartTask: "admitted (map StartTask xs) = []"
  by (induction xs) simp_all

lemma work_StartTask: "work (map StartTask xs) = map StartTask xs"
  by (induction xs) simp_all

lemma naturalPost_Inr:
  assumes "naturalPost cfg sc price tasks c (Inr tasks', c')"
  shows "(\<exists>lv lg n. c' = c\<lparr>level := lv, logged := lg, newClientCalls := n\<rparr>) \<and>
         (\<exists>k. admitted tasks' = admitted tasks @ naturalRequests cfg price (level c) k \<and>
                work tasks' = work tasks \<and>
                level c' = level c + of_nat k \<and>
                logged c' = logged c @ replicate k LogNaturalGrowth \<and>
                (\<forall>j<k. \<not> sint sc < sint (nextScore (level c + of_nat j))) \<and>
                (0 < k \<longrightarrow> \<not> AllowErrorMin cfg < int (ErrorCount c)) \<and>
                (sint sc < sint (nextScore (level c')) \<or> AllowErrorMin cfg < int (ErrorCount c)))"
  using assms unfolding naturalPost_def by simp

lemma Next_empty:
  "investors (PurgeInvestor c) = [] \<Longrightarrow>
   Next cfg ev c = Some (Inl ErrNoActiveInvestors, PurgeInvestor c)"
  by (simp add: Next_def Let_def ActiveInvestors_def)

lemma Next_unfold:
  assumes ne: "investors (PurgeInvestor c) \<noteq> []"
  shows "Next cfg ev c =
     (case shareLoop cfg ev (investors (PurgeInvestor c))
             (startLoop (investors (PurgeInvestor c)) 2 []) 5000 0 (PurgeInvestor c) of
        (Inl e, c2) \<Rightarrow> Some (Inl e, c2)
      | (Inr (tasks1, lp, n), c2) \<Rightarrow>
          naturalLoop cfg ev (score c) lp tasks1
            (if n > 0 then c2\<lparr>logged := logged c2 @ [LogAddByShare n]\<rparr> else c2))"
proof -
  let ?c1 = "PurgeInvestor c"
  obtain r2 c2 where sl: "shareLoop cfg ev (investors ?c1) (startLoop (investors ?c1) 2 []) 5000 0 ?c1 = (r2, c2)"
    by (cases "shareLoop cfg ev (investors ?c1) (startLoop (investors ?c1) 2 []) 5000 0 ?c1")
  have b: "budget c2 = budget c"
    using shareLoop_budget [of cfg ev "investors ?c1" "startLoop (investors ?c1) 2 []" 5000 0 ?c1] sl
      PurgeInvestor_budget [of c] by simp
  then have s: "score c2 = score c" by (simp add: budget_def)
  show ?thesis
  proof (cases r2)
    case (Inl e)
    with ne sl show ?thesis by (simp add: Next_def Let_def ActiveInvestors_def)
  next
    case (Inr q)
    obtain tasks1 lp n where q: "q = (tasks1, lp, n)" by (cases q)
    with ne sl Inr s show ?thesis
      by (simp add: Next_def Let_def ActiveInvestors_def GetScore_def)
  qed
qed

lemma Next_Inl:
  assumes "Next cfg ev c = Some (Inl e, c')"
  shows "(investors (PurgeInvestor c) = [] \<and> e = ErrNoActiveInvestors \<and> c' = PurgeInvestor c) \<or>
         (investors (PurgeInvestor c) \<noteq> [] \<and> (\<exists>m. e = ErrNewClient m))"
proof (cases "investors (PurgeInvestor c) = []")
  case True
  with assms Next_empty [OF True, of cfg ev] show ?thesis by simp
next
  case False
  let ?c1 = "PurgeInvestor c"
  obtain r2 c2 where sl: "shareLoop cfg ev (investors ?c1) (startLoop (investors ?c1) 2 []) 5000 0 ?c1 = (r2, c2)"
    by (cases "shareLoop cfg ev (investors ?c1) (startLoop (investors ?c1) 2 []) 5000 0 ?c1")
  show ?thesis
  proof (cases r2)
    case (Inl e2)
    with assms sl have "e2 = e" by (simp add: Next_unfold [OF False])
    with shareLoop_Inl [OF sl [unfolded Inl]] False show ?thesis by simp
  next
    case (Inr q)
    obtain tasks1 lp n where q: "q = (tasks1, lp, n)" by (cases q)
    let ?c3 = "if n > 0 then c2\<lparr>logged := logged c2 @ [LogAddByShare n]\<rparr> else c2"
    from assms sl Inr q have "naturalLoop cfg ev (score c) lp tasks1 ?c3 = Some (Inl e, c')"
      by (simp add: Next_unfold [OF False])
    from naturalLoop_post [OF this] have "\<exists>m. e = ErrNewClient m"
      unfolding naturalPost_def by simp
    with False show ?thesis by simp
  qed
qed

lemma Next_Inr:
  assumes "Next cfg ev c = Some (Inr tasks, c')"
  shows "investors (PurgeInvestor c) \<noteq> [] \<and>
    (\<exists>k. admitted tasks = shareRequests cfg (investors (PurgeInvestor c)) @
            naturalRequests cfg (latestPrice 5000 (investors (PurgeInvestor c))) (level c) k \<and>
          work tasks = map StartTask (take 2 (filter (\<lambda>i. \<not> ivIsStarted i) (investors (PurgeInvestor c)))) @
            map NextTask (filter (\<lambda>i. eligible i \<and> ivHasNext i) (investors (PurgeInvestor c))) \<and>
          level c' = level c + of_nat k \<and>
          (\<forall>j<k. \<not> sint (score c) < sint (nextScore (level c + of_nat j))) \<and>
          (0 < k \<longrightarrow> \<not> AllowErrorMin cfg < int (ErrorCount c)) \<and>
          (sint (score c) < sint (nextScore (level c')) \<or> AllowErrorMin cfg < int (ErrorCount c))) \<and>
    (\<exists>lv lg n. c' = (PurgeInvestor c)\<lparr>level := lv, logged := lg, newClientCalls := n\<rparr>)"
proof -
  let ?c1 = "PurgeInvestor c"
  let ?invs = "investors ?c1"
  have ne: "?invs \<noteq> []"
  proof
    assume "?invs = []"
    from Next_empty [OF this, of cfg ev] assms show False by simp
  qed
  obtain r2 c2 where sl: "shareLoop cfg ev ?invs (startLoop ?invs 2 []) 5000 0 ?c1 = (r2, c2)"
    by (cases "shareLoop cfg ev ?invs (startLoop ?invs 2 []) 5000 0 ?c1")
  have l1: "level ?c1 = level c" and e1: "ErrorCount ?c1 = ErrorCount c"
    by (simp_all add: PurgeInvestor_eq ErrorCount_def)
  show ?thesis
  proof (cases r2)
    case (Inl e2)
    with assms sl show ?thesis by (simp add: Next_unfold [OF ne])
  next
    case (Inr q)
    obtain tasks1 lp n where q: "q = (tasks1, lp, n)" by (cases q)
    let ?c3 = "if n > 0 then c2\<lparr>logged := logged c2 @ [LogAddByShare n]\<rparr> else c2"
    from shareLoop_Inr [OF sl [unfolded Inr q]] obtain k2 where
      s1: "admitted tasks1 = admitted (startLoop ?invs 2 []) @ shareRequests cfg ?invs"
      and s2: "work tasks1 = work (startLoop ?invs 2 []) @ map NextTask (filter (\<lambda>i. eligible i \<and> ivHasNext i) ?invs)"
      and s3: "lp = latestPrice 5000 ?invs"
      and s5: "c2 = ?c1\<lparr>newClientCalls := k2\<rparr>"
      by blast
    have st: "startLoop ?invs 2 [] = map StartTask (take 2 (filter (\<lambda>i. \<not> ivIsStarted i) ?invs))"
      using startLoop_eq [of 2 ?invs "[]"] by simp
    have st_a: "admitted (startLoop ?invs 2 []) = []"
      unfolding st by (rule admitted_StartTask)
    have wk: "\<And>xs. work (map StartTask xs) = map StartTask xs"
      by (rule work_StartTask)
    have st_w: "work (startLoop ?invs 2 []) = map StartTask (take 2 (filter (\<lambda>i. \<not> ivIsStarted i) ?invs))"
      unfolding st by (rule wk)
    have c3: "\<exists>lg. ?c3 = ?c1\<lparr>logged := lg, newClientCalls := k2\<rparr>"
    proof (cases "n > 0")
      case True
      then show ?thesis unfolding s5 by (intro exI [of _ "logged ?c1 @ [LogAddByShare n]"]) simp
    next
      case False
      then show ?thesis unfolding s5 by (intro exI [of _ "logged ?c1"]) simp
    qed
    then obtain lg3 where c3': "?c3 = ?c1\<lparr>logged := lg3, newClientCalls := k2\<rparr>" by blast
    have l3: "level ?c3 = level c" and e3: "ErrorCount ?c3 = ErrorCount c"
      unfolding c3' using l1 e1 by (simp_all add: ErrorCount_def)
    from assms sl Inr q have nl: "naturalLoop cfg ev (score c) lp tasks1 ?c3 = Some (Inr tasks, c')"
      by (simp add: Next_unfold [OF ne])
    note np = naturalPost_Inr [OF naturalLoop_post [OF nl]]
    from np obtain lv lg nn where
      n0: "c' = ?c3\<lparr>level := lv, logged := lg, newClientCalls := nn\<rparr>"
      by blast
    from np obtain k where
      n1: "admitted tasks = admitted tasks1 @ naturalRequests cfg lp (level ?c3) k"
      and n2: "work tasks = work tasks1"
      and n3: "level c' = level ?c3 + of_nat k"
      and n5: "\<forall>j<k. \<not> sint (score c) < sint (nextScore (level ?c3 + of_nat j))"
      and n6: "0 < k \<longrightarrow> \<not> AllowErrorMin cfg < int (ErrorCount ?c3)"
      and n7: "sint (score c) < sint (nextScore (level c')) \<or> AllowErrorMin cfg < int (ErrorCount ?c3)"
      by blast
    have frame: "\<exists>lv lg n. c' = ?c1\<lparr>level := lv, logged := lg, newClientCalls := n\<rparr>"
      unfolding n0 c3' by (intro exI [of _ lv] exI [of _ lg] exI [of _ nn]) simp
    have "admitted tasks = shareRequests cfg ?invs @ naturalRequests cfg (latestPrice 5000 ?invs) (level c) k"
      unfolding n1 s1 st_a s3 l3 by simp
    moreover have "work tasks = map StartTask (take 2 (filter (\<lambda>i. \<not> ivIsStarted i) ?invs)) @
            map NextTask (filter (\<lambda>i. eligible i \<and> ivHasNext i) ?invs)"
      unfolding n2 s2 st_w ..
    moreover have "level c' = level c + of_nat k" using n3 unfolding l3 .
    moreover have "\<forall>j<k. \<not> sint (score c) < sint (nextScore (level c + of_nat j))"
      using n5 unfolding l3 .
    moreover have "0 < k \<longrightarrow> \<not> AllowErrorMin cfg < int (ErrorCount c)" using n6 unfolding e3 .
    moreover have "sint (score c) < sint (nextScore (level c')) \<or> AllowErrorMin cfg < int (ErrorCount c)"
      using n7 unfolding e3 .
    ultimately show ?thesis using ne frame by blast
  qed
qed

lemma Next_total:
  assumes ok: "clientsOK ev" and ne: "investors (PurgeInvestor c) \<noteq> []"
    and l: "unat (level c) \<le> 56" and sc: "sint (score c) < 2 ^ 56 * 100"
  shows "\<exists>tasks c'. Next cfg ev c = Some (Inr tasks, c')"
proof -
  let ?c1 = "PurgeInvestor c"
  let ?invs = "investors ?c1"
  from shareLoop_total [OF ok] obtain tasks1 lp n c2 where
    sl: "shareLoop cfg ev ?invs (startLoop ?invs 2 []) 5000 0 ?c1 = (Inr (tasks1, lp, n), c2)"
    by blast
  let ?c3 = "if n > 0 then c2\<lparr>logged := logged c2 @ [LogAddByShare n]\<rparr> else c2"
  from shareLoop_Inr [OF sl] obtain k2 where "c2 = ?c1\<lparr>newClientCalls := k2\<rparr>" by blast
  then have "level ?c3 = level c" by (simp add: PurgeInvestor_eq)
  with l have "unat (level ?c3) \<le> 56" by simp
  from naturalLoop_total [OF ok sc this, of cfg lp tasks1] sl
  show ?thesis by (simp add: Next_unfold [OF ne])
qed

subsection \<open>A tick with nothing to do, and a tick with nobody left\<close>

lemma shareLoop_idle:
  "\<forall>i\<in>set invs. eligible i \<longrightarrow> \<not> ivHasNext i \<and> ivSharedTrades i = [] \<Longrightarrow>
   shareLoop cfg ev invs tasks lp n c = (Inr (tasks, latestPrice lp invs, n), c)"
proof (induction invs arbitrary: lp)
  case Nil
  then show ?case by (simp add: latestPrice_Nil)
next
  case (Cons i rest)
  then have rest: "\<forall>i\<in>set rest. eligible i \<longrightarrow> \<not> ivHasNext i \<and> ivSharedTrades i = []" by simp
  show ?case
  proof (cases "eligible i")
    case False
    with Cons.IH [OF rest, of lp] show ?thesis
      by (simp add: shareLoop_skip latestPrice_Cons del: shareLoop.simps)
  next
    case True
    with Cons.prems have "\<not> ivHasNext i \<and> ivSharedTrades i = []" by simp
    with True Cons.IH [OF rest, of "ivLatestTradePrice i"] show ?thesis
      by (simp add: shareLoop_step latestPrice_Cons del: shareLoop.simps)
  qed
qed

lemma startLoop_idle:
  "\<forall>i\<in>set invs. ivIsStarted i \<Longrightarrow> startLoop invs start tasks = tasks"
  by (induction invs arbitrary: start tasks) simp_all

lemma Next_idle:
  assumes ne: "investors (PurgeInvestor c) \<noteq> []"
    and idle: "\<forall>i\<in>set (investors (PurgeInvestor c)).
                 ivIsStarted i \<and> (eligible i \<longrightarrow> \<not> ivHasNext i \<and> ivSharedTrades i = [])"
    and stop: "sint (GetScore c) < sint (nextScore (level c)) \<or> AllowErrorMin cfg < int (ErrorCount c)"
  shows "Next cfg ev c = Some (Inr [], PurgeInvestor c)"
proof -
  let ?c1 = "PurgeInvestor c"
  have st: "startLoop (investors ?c1) 2 [] = []"
    using idle by (intro startLoop_idle) simp
  have sl: "shareLoop cfg ev (investors ?c1) [] 5000 0 ?c1 =
            (Inr ([], latestPrice 5000 (investors ?c1), 0), ?c1)"
    using idle by (intro shareLoop_idle) simp
  have l1: "level ?c1 = level c" and e1: "ErrorCount ?c1 = ErrorCount c"
    by (simp_all add: PurgeInvestor_eq ErrorCount_def)
  have "naturalLoop cfg ev (score c) (latestPrice 5000 (investors ?c1)) [] ?c1 = Some (Inr [], ?c1)"
    using stop by (subst naturalLoop.simps) (auto simp: l1 e1 GetScore_def)
  then show ?thesis by (simp add: Next_unfold [OF ne] st sl)
qed

text \<open>
  Claim C7. \<open>Next\<close> purges the retired investors first: whatever it returns, the registry
  holds the investors that \<open>PurgeInvestor\<close> keeps. It returns the no-active-investors error
  exactly when the purge leaves no investor. When an investor is left, every investor is
  started, no investor that is asked has work or a shared trade, and the level cannot
  rise (the score is below the next threshold or more than \<open>AllowErrorMin\<close> errors are
  recorded), \<open>Next\<close> returns an empty batch and no error, and the manager is as the purge
  left it.
\<close>

theorem Next_no_active_investors:
  "((\<exists>c'. Next cfg ev c = Some (Inl ErrNoActiveInvestors, c')) \<longleftrightarrow> investors (PurgeInvestor c) = []) \<and>
   (\<forall>r c'. Next cfg ev c = Some (r, c') \<longrightarrow> investors c' = investors (PurgeInvestor c)) \<and>
   (investors (PurgeInvestor c) \<noteq> [] \<and>
    (\<forall>i\<in>set (investors (PurgeInvestor c)).
        ivIsStarted i \<and> (eligible i \<longrightarrow> \<not> ivHasNext i \<and> ivSharedTrades i = [])) \<and>
    (sint (GetScore c) < sint (nextScore (level c)) \<or> AllowErrorMin cfg < int (ErrorCount c))
    \<longrightarrow> Next cfg ev c = Some (Inr [], PurgeInvestor c))"
proof (intro conjI allI impI)
  show "(\<exists>c'. Next cfg ev c = Some (Inl ErrNoActiveInvestors, c')) \<longleftrightarrow> investors (PurgeInvestor c) = []"
  proof
    assume "\<exists>c'. Next cfg ev c = Some (Inl ErrNoActiveInvestors, c')"
    then obtain c' where "Next cfg ev c = Some (Inl ErrNoActiveInvestors, c')" ..
    from Next_Inl [OF this] show "investors (PurgeInvestor c) = []" by auto
  next
    assume "investors (PurgeInvestor c) = []"
    from Next_empty [OF this, of cfg ev] show "\<exists>c'. Next cfg ev c = Some (Inl ErrNoActiveInvestors, c')" ..
  qed
next
  fix r c'
  assume n: "Next cfg ev c = Some (r, c')"
  show "investors c' = investors (PurgeInvestor c)"
  proof (cases r)
    case (Inr tasks)
    with n Next_Inr [of cfg ev c tasks c'] obtain lv lg k where
      "c' = (PurgeInvestor c)\<lparr>level := lv, logged := lg, newClientCalls := k\<rparr>" by blast
    then show ?thesis by simp
  next
    case (Inl e)
    show ?thesis
    proof (cases "investors (PurgeInvestor c) = []")
      case True
      with n Next_empty [OF True, of cfg ev] show ?thesis by simp
    next
      case False
      let ?c1 = "PurgeInvestor c"
      obtain r2 c2 where sl: "shareLoop cfg ev (investors ?c1) (startLoop (investors ?c1) 2 []) 5000 0 ?c1 = (r2, c2)"
        by (cases "shareLoop cfg ev (investors ?c1) (startLoop (investors ?c1) 2 []) 5000 0 ?c1")
      show ?thesis
      proof (cases r2)
        case (Inl e2)
        with n sl have "c2 = c'" by (simp add: Next_unfold [OF False])
        with shareLoop_Inl [OF sl [unfolded Inl]] show ?thesis by auto
      next
        case (Inr q)
        obtain tasks1 lp k where q: "q = (tasks1, lp, k)" by (cases q)
        let ?c3 = "if k > 0 then c2\<lparr>logged := logged c2 @ [LogAddByShare k]\<rparr> else c2"
        from shareLoop_Inr [OF sl [unfolded Inr q]] obtain k2 where "c2 = ?c1\<lparr>newClientCalls := k2\<rparr>"
          by blast
        then have i3: "investors ?c3 = investors ?c1" by simp
        from n sl Inr q have "naturalLoop cfg ev (score c) lp tasks1 ?c3 = Some (r, c')"
          by (simp add: Next_unfold [OF False])
        from naturalLoop_post [OF this] obtain lv lg nn where
          "c' = ?c3\<lparr>level := lv, logged := lg, newClientCalls := nn\<rparr>"
          unfolding naturalPost_def by auto
        then have "investors c' = investors ?c3" by simp
        with i3 show ?thesis by simp
      qed
    qed
  qed
next
  assume a: "investors (PurgeInvestor c) \<noteq> [] \<and>
    (\<forall>i\<in>set (investors (PurgeInvestor c)).
        ivIsStarted i \<and> (eligible i \<longrightarrow> \<not> ivHasNext i \<and> ivSharedTrades i = [])) \<and>
    (sint (GetScore c) < sint (nextScore (level c)) \<or> AllowErrorMin cfg < int (ErrorCount c))"
  then show "Next cfg ev c = Some (Inr [], PurgeInvestor c)"
    using Next_idle [of c cfg ev] by blast
qed


lemma idleManager_purged:
  "investors (PurgeInvestor idleManager) = [exampleInvestor ''a'' False]"
  by (simp add: PurgeInvestor_eq idleManager_def NewManager_def exampleInvestor_def)

theorem Next_no_active_investors_witness:
  "investors (PurgeInvestor idleManager) \<noteq> [] \<and>
   Next exampleConfig exampleEnv idleManager = Some (Inr [], PurgeInvestor idleManager) \<and>
   investors (PurgeInvestor (NewManager\<lparr>investors := [exampleInvestor ''b'' True]\<rparr>)) = [] \<and>
   (\<exists>c'. Next exampleConfig exampleEnv (NewManager\<lparr>investors := [exampleInvestor ''b'' True]\<rparr>)
           = Some (Inl ErrNoActiveInvestors, c'))"
proof -
  have h1: "investors (PurgeInvestor idleManager) \<noteq> []" by (simp add: idleManager_purged)
  have h2: "\<forall>i\<in>set (investors (PurgeInvestor idleManager)).
        ivIsStarted i \<and> (eligible i \<longrightarrow> \<not> ivHasNext i \<and> ivSharedTrades i = [])"
    by (simp add: idleManager_purged exampleInvestor_def NewRandomInvestor_def)
  have h3: "sint (GetScore idleManager) < sint (nextScore (level idleManager))"
    by (simp add: idleManager_def NewManager_def GetScore_def nextScore_def)
  have h4: "investors (PurgeInvestor (NewManager\<lparr>investors := [exampleInvestor ''b'' True]\<rparr>)) = []"
    by (simp add: PurgeInvestor_eq NewManager_def exampleInvestor_def)
  show ?thesis
    using h1 h2 h3 h4
      Next_no_active_investors [of exampleConfig exampleEnv idleManager]
      Next_no_active_investors [of exampleConfig exampleEnv "NewManager\<lparr>investors := [exampleInvestor ''b'' True]\<rparr>"]
    by blast
qed

subsection \<open>Growth by shared trades\<close>

lemma shareRequests_flat:
  "shareRequests cfg invs =
     concat (map (\<lambda>t. request (AddUsersOnShare cfg) (Amount t) (Price t)) (sharedTrades invs))"
  unfolding shareRequests_def sharedTrades_def
  by (induction invs) simp_all

lemma length_request: "length (request num ua p) = nat num"
  by (simp add: request_def)

lemma request_params:
  "s \<in> set (request num ua p) \<Longrightarrow>
   unitAmount s = ua \<and> (unitPrice s = p - 2 \<or> unitPrice s = p + 5)"
  by (auto simp: request_def requested_def)

lemma Next_total_stop:
  assumes ok: "clientsOK ev" and ne: "investors (PurgeInvestor c) \<noteq> []"
    and stop: "sint (score c) < sint (nextScore (level c)) \<or> AllowErrorMin cfg < int (ErrorCount c)"
  shows "\<exists>tasks c'. Next cfg ev c = Some (Inr tasks, c')"
proof -
  let ?c1 = "PurgeInvestor c"
  let ?invs = "investors ?c1"
  from shareLoop_total [OF ok] obtain tasks1 lp n c2 where
    sl: "shareLoop cfg ev ?invs (startLoop ?invs 2 []) 5000 0 ?c1 = (Inr (tasks1, lp, n), c2)"
    by blast
  let ?c3 = "if n > 0 then c2\<lparr>logged := logged c2 @ [LogAddByShare n]\<rparr> else c2"
  from shareLoop_Inr [OF sl] obtain k2 where "c2 = ?c1\<lparr>newClientCalls := k2\<rparr>" by blast
  then have "level ?c3 = level c" and "ErrorCount ?c3 = ErrorCount c"
    by (simp_all add: PurgeInvestor_eq ErrorCount_def)
  with stop have "naturalLoop cfg ev (score c) lp tasks1 ?c3 = Some (Inr tasks1, ?c3)"
    by (subst naturalLoop.simps) auto
  with sl show ?thesis by (simp add: Next_unfold [OF ne])
qed

lemma stop_no_levelup:
  assumes stop: "sint sc < sint (nextScore l) \<or> m < e"
    and cr: "\<forall>j<k. \<not> sint sc < sint (nextScore (l + of_nat j))"
    and er: "0 < k \<longrightarrow> \<not> m < e"
  shows "k = 0"
proof (rule ccontr)
  assume "k \<noteq> 0"
  then have k: "0 < k" by simp
  with cr have "\<not> sint sc < sint (nextScore (l + of_nat 0))" by blast
  with stop er k show False by simp
qed

text \<open>
  Claim C8. Whenever \<open>Next\<close> returns a batch, the investors it admits are, in this
  order: for every investor of the purged registry that has completed its start and is
  not retired, and for each of its shared trades, the \<open>AddUsersOnShare\<close> investors of one
  request with the amount and the price of that trade; then the investors of the natural
  growth. A request for \<open>AddUsersOnShare\<close> investors has exactly that many, each with the
  unit amount of the trade and a price next to the price of the trade. \<open>Next\<close> does
  return a batch when every \<open>newClient\<close> succeeds, an investor is left, and the level
  cannot rise or the threshold does not overflow. With one shared trade of amount 10 at
  price 5000 and a level that cannot rise, the batch admits exactly the investors of
  one request for \<open>AddUsersOnShare\<close> investors with (10, 5000).
\<close>

theorem share_growth:
  "(Next cfg ev c = Some (Inr tasks, c') \<longrightarrow>
      (\<exists>k. admitted tasks =
              concat (map (\<lambda>t. request (AddUsersOnShare cfg) (Amount t) (Price t))
                          (sharedTrades (investors (PurgeInvestor c)))) @
              naturalRequests cfg (latestPrice 5000 (investors (PurgeInvestor c))) (level c) k \<and>
            level c' = level c + of_nat k)) \<and>
   length (request (AddUsersOnShare cfg) a p) = nat (AddUsersOnShare cfg) \<and>
   (\<forall>s\<in>set (request (AddUsersOnShare cfg) a p).
       unitAmount s = a \<and> (unitPrice s = p - 2 \<or> unitPrice s = p + 5)) \<and>
   (clientsOK ev \<and> investors (PurgeInvestor c) \<noteq> [] \<and>
    ((sint (score c) < sint (nextScore (level c)) \<or> AllowErrorMin cfg < int (ErrorCount c)) \<or>
     (unat (level c) \<le> 56 \<and> sint (score c) < 2 ^ 56 * 100))
    \<longrightarrow> (\<exists>tasks c'. Next cfg ev c = Some (Inr tasks, c'))) \<and>
   (clientsOK ev \<and> investors (PurgeInvestor c) \<noteq> [] \<and>
    sharedTrades (investors (PurgeInvestor c)) = [\<lparr>Amount = 10, Price = 5000\<rparr>] \<and>
    (sint (score c) < sint (nextScore (level c)) \<or> AllowErrorMin cfg < int (ErrorCount c))
    \<longrightarrow> (\<exists>tasks c'. Next cfg ev c = Some (Inr tasks, c') \<and>
           admitted tasks = request (AddUsersOnShare cfg) 10 5000 \<and>
           length (admitted tasks) = nat (AddUsersOnShare cfg)))"
proof (intro conjI impI ballI)
  assume "Next cfg ev c = Some (Inr tasks, c')"
  from Next_Inr [OF this]
  show "\<exists>k. admitted tasks =
              concat (map (\<lambda>t. request (AddUsersOnShare cfg) (Amount t) (Price t))
                          (sharedTrades (investors (PurgeInvestor c)))) @
              naturalRequests cfg (latestPrice 5000 (investors (PurgeInvestor c))) (level c) k \<and>
            level c' = level c + of_nat k"
    unfolding shareRequests_flat by blast
next
  show "length (request (AddUsersOnShare cfg) a p) = nat (AddUsersOnShare cfg)"
    by (rule length_request)
next
  fix s assume "s \<in> set (request (AddUsersOnShare cfg) a p)"
  then show "unitAmount s = a" and "unitPrice s = p - 2 \<or> unitPrice s = p + 5"
    using request_params by blast+
next
  assume a: "clientsOK ev \<and> investors (PurgeInvestor c) \<noteq> [] \<and>
    ((sint (score c) < sint (nextScore (level c)) \<or> AllowErrorMin cfg < int (ErrorCount c)) \<or>
     (unat (level c) \<le> 56 \<and> sint (score c) < 2 ^ 56 * 100))"
  then show "\<exists>tasks c'. Next cfg ev c = Some (Inr tasks, c')"
    using Next_total_stop [of ev c cfg] Next_total [of ev c cfg] by blast
next
  assume a: "clientsOK ev \<and> investors (PurgeInvestor c) \<noteq> [] \<and>
    sharedTrades (investors (PurgeInvestor c)) = [\<lparr>Amount = 10, Price = 5000\<rparr>] \<and>
    (sint (score c) < sint (nextScore (level c)) \<or> AllowErrorMin cfg < int (ErrorCount c))"
  then obtain tasks c' where n: "Next cfg ev c = Some (Inr tasks, c')"
    using Next_total_stop [of ev c cfg] by blast
  from Next_Inr [OF n] obtain k where
    ad: "admitted tasks = shareRequests cfg (investors (PurgeInvestor c)) @
            naturalRequests cfg (latestPrice 5000 (investors (PurgeInvestor c))) (level c) k"
    and cr: "\<forall>j<k. \<not> sint (score c) < sint (nextScore (level c + of_nat j))"
    and er: "0 < k \<longrightarrow> \<not> AllowErrorMin cfg < int (ErrorCount c)"
    by blast
  have "k = 0" using a cr er by (intro stop_no_levelup [of "score c" "level c" "AllowErrorMin cfg" "int (ErrorCount c)"]) blast+
  with ad a have "admitted tasks = request (AddUsersOnShare cfg) 10 5000"
    by (simp add: shareRequests_flat)
  with n show "\<exists>tasks c'. Next cfg ev c = Some (Inr tasks, c') \<and>
           admitted tasks = request (AddUsersOnShare cfg) 10 5000 \<and>
           length (admitted tasks) = nat (AddUsersOnShare cfg)"
    by (auto simp: length_request)
qed

lemma exampleEnv_ok: "clientsOK exampleEnv"
  by (simp add: clientsOK_def exampleEnv_def)

lemma growthManager_purged:
  "investors (PurgeInvestor growthManager) =
     [(exampleInvestor ''a'' False)\<lparr>ivSharedTrades := [\<lparr>Amount = 10, Price = 5000\<rparr>]\<rparr>]"
  by (simp add: PurgeInvestor_eq growthManager_def NewManager_def exampleInvestor_def)

theorem share_growth_witness:
  "clientsOK exampleEnv \<and> investors (PurgeInvestor growthManager) \<noteq> [] \<and>
   sharedTrades (investors (PurgeInvestor growthManager)) = [\<lparr>Amount = 10, Price = 5000\<rparr>] \<and>
   sint (score growthManager) < sint (nextScore (level growthManager)) \<and>
   (\<exists>tasks c'. Next exampleConfig exampleEnv growthManager = Some (Inr tasks, c') \<and>
      admitted tasks = [RandomInvestor 0 1000 10 5005, RandomInvestor 5000000 0 10 4998])"
proof -
  have h2: "investors (PurgeInvestor growthManager) \<noteq> []" by (simp add: growthManager_purged)
  have h3: "sharedTrades (investors (PurgeInvestor growthManager)) = [\<lparr>Amount = 10, Price = 5000\<rparr>]"
    by (simp add: growthManager_purged sharedTrades_def eligible_def exampleInvestor_def
        NewRandomInvestor_def)
  have h4: "sint (score growthManager) < sint (nextScore (level growthManager))"
    by (simp add: growthManager_def NewManager_def nextScore_def)
  have r: "request (AddUsersOnShare exampleConfig) 10 5000 =
           [RandomInvestor 0 1000 10 5005, RandomInvestor 5000000 0 10 4998]"
    by (simp add: request_def requested_def exampleConfig_def upt_conv_Cons)
  show ?thesis
    using exampleEnv_ok h2 h3 h4 r
      share_growth [of exampleConfig exampleEnv growthManager "[]" NewManager 10 5000]
    by (simp only: simp_thms) blast
qed

subsection \<open>Natural growth\<close>

lemma levelPost_0: "level c' = level c \<Longrightarrow> levelPost cfg sc c (r, c')"
  unfolding levelPost_def by (intro exI [of _ 0]) simp

lemma levelPost_Suc:
  assumes g: "\<not> sint sc < sint (nextScore (level c))" "\<not> AllowErrorMin cfg < int (ErrorCount c)"
    and l3: "level c3 = level c + 1" and e3: "ErrorCount c3 = ErrorCount c"
    and post: "levelPost cfg sc c3 y"
  shows "levelPost cfg sc c y"
proof -
  from post obtain k where k1: "level (snd y) = level c3 + of_nat k"
    and k2: "\<forall>j<k. \<not> sint sc < sint (nextScore (level c3 + of_nat j))"
    unfolding levelPost_def by blast
  have n1: "level (snd y) = level c + of_nat (Suc k)" unfolding k1 l3 by simp
  have n2: "\<forall>j<Suc k. \<not> sint sc < sint (nextScore (level c + of_nat j))"
  proof (intro allI impI)
    fix j assume jk: "j < Suc k"
    show "\<not> sint sc < sint (nextScore (level c + of_nat j))"
    proof (cases j)
      case 0
      with g(1) show ?thesis by simp
    next
      case (Suc j')
      with jk k2 have "\<not> sint sc < sint (nextScore (level c3 + of_nat j'))" by simp
      moreover have "level c + of_nat j = level c3 + of_nat j'" using Suc by (simp add: l3)
      ultimately show ?thesis by simp
    qed
  qed
  have "level (snd y) = level c + of_nat (Suc k) \<and>
        (\<forall>j<Suc k. \<not> sint sc < sint (nextScore (level c + of_nat j))) \<and>
        (0 < Suc k \<longrightarrow> \<not> AllowErrorMin cfg < int (ErrorCount c))"
    using n1 n2 g(2) by blast
  then show ?thesis unfolding levelPost_def by (rule exI [of _ "Suc k"])
qed

lemma naturalLoop_levels:
  assumes a: "naturalLoop cfg ev sc lp tasks c = Some y"
  shows "levelPost cfg sc c y"
proof (rule naturalLoop.raw_induct [where P = "\<lambda>cfg ev sc lp tasks c y. levelPost cfg sc c y", OF _ a])
  fix f :: "config \<Rightarrow> env \<Rightarrow> int64 \<Rightarrow> int64 \<Rightarrow> task list \<Rightarrow> manager \<Rightarrow> ((bench_error + task list) \<times> manager) option"
    and cfg :: config and ev :: env and sc lp :: int64 and tasks :: "task list"
    and c :: manager and y :: "(bench_error + task list) \<times> manager"
  assume IH: "\<And>cfg ev sc lp tasks c y. f cfg ev sc lp tasks c = Some y \<Longrightarrow> levelPost cfg sc c y"
  let ?c2 = "c\<lparr>level := level c + 1, logged := logged c @ [LogNaturalGrowth]\<rparr>"
  assume eq: "(if sint sc < sint (nextScore (level c)) then Some (Inr tasks, c)
          else if AllowErrorMin cfg < int (ErrorCount c)
               then Some (Inr tasks, c)
               else let c1 = c\<lparr>level := level c + 1\<rparr>;
                        c2 = c1\<lparr>logged := logged c1 @ [LogNaturalGrowth]\<rparr>
                    in case addInvestors ev (AddUsersOnNatural cfg)
                             (level c2 + 1) lp tasks c2 of
                       (Inl e, c3) \<Rightarrow> Some (Inl e, c3)
                       | (Inr tasks1, c3) \<Rightarrow> f cfg ev sc lp tasks1 c3) = Some y"
  show "levelPost cfg sc c y"
  proof (cases "sint sc < sint (nextScore (level c)) \<or> AllowErrorMin cfg < int (ErrorCount c)")
    case True
    with eq have "y = (Inr tasks, c)" by (auto split: if_splits)
    then show ?thesis using levelPost_0 [of c c cfg sc "Inr tasks"] by simp
  next
    case False
    obtain r c3 where ai: "addInvestors ev (AddUsersOnNatural cfg) (level c + 1 + 1) lp tasks ?c2 = (r, c3)"
      by (cases "addInvestors ev (AddUsersOnNatural cfg) (level c + 1 + 1) lp tasks ?c2")
    have "\<exists>k. c3 = ?c2\<lparr>newClientCalls := k\<rparr>"
    proof (cases r)
      case (Inl e)
      with addInvestors_Inl [OF ai [unfolded Inl]] show ?thesis by simp
    next
      case (Inr tasks1)
      with addInvestors_Inr [OF ai [unfolded Inr]] show ?thesis by blast
    qed
    then obtain k3 where c3: "c3 = ?c2\<lparr>newClientCalls := k3\<rparr>" ..
    have l3: "level c3 = level c + 1" and e3: "ErrorCount c3 = ErrorCount c"
      unfolding c3 by (simp_all add: ErrorCount_def)
    show ?thesis
    proof (cases r)
      case (Inl e)
      with False eq ai have y: "y = (Inl e, c3)" by (auto simp: Let_def)
      have "levelPost cfg sc c3 y" unfolding y by (rule levelPost_0) simp
      from levelPost_Suc [OF _ _ l3 e3 this] False show ?thesis by simp
    next
      case (Inr tasks1)
      with False eq ai have "f cfg ev sc lp tasks1 c3 = Some y" by (simp add: Let_def)
      from levelPost_Suc [OF _ _ l3 e3 IH [OF this]] False show ?thesis by simp
    qed
  qed
qed

lemma Next_levels:
  assumes n: "Next cfg ev c = Some (r, c')"
  shows "levelPost cfg (score c) c (r, c')"
proof (cases "investors (PurgeInvestor c) = []")
  case True
  with n Next_empty [OF True, of cfg ev] have "c' = PurgeInvestor c" by simp
  then show ?thesis by (intro levelPost_0) (simp add: PurgeInvestor_eq)
next
  case False
  let ?c1 = "PurgeInvestor c"
  obtain r2 c2 where sl: "shareLoop cfg ev (investors ?c1) (startLoop (investors ?c1) 2 []) 5000 0 ?c1 = (r2, c2)"
    by (cases "shareLoop cfg ev (investors ?c1) (startLoop (investors ?c1) 2 []) 5000 0 ?c1")
  have "\<exists>k. c2 = ?c1\<lparr>newClientCalls := k\<rparr>"
  proof (cases r2)
    case (Inl e)
    with shareLoop_Inl [OF sl [unfolded Inl]] show ?thesis by simp
  next
    case (Inr q)
    obtain tasks1 lp k where q: "q = (tasks1, lp, k)" by (cases q)
    from shareLoop_Inr [OF sl [unfolded Inr q]] show ?thesis by blast
  qed
  then obtain k2 where c2: "c2 = ?c1\<lparr>newClientCalls := k2\<rparr>" ..
  show ?thesis
  proof (cases r2)
    case (Inl e2)
    with n sl have "c' = c2" by (simp add: Next_unfold [OF False])
    then show ?thesis by (intro levelPost_0) (simp add: c2 PurgeInvestor_eq)
  next
    case (Inr q)
    obtain tasks1 lp k where q: "q = (tasks1, lp, k)" by (cases q)
    let ?c3 = "if k > 0 then c2\<lparr>logged := logged c2 @ [LogAddByShare k]\<rparr> else c2"
    have l3: "level ?c3 = level c" and e3: "ErrorCount ?c3 = ErrorCount c"
      by (simp_all add: c2 PurgeInvestor_eq ErrorCount_def)
    from n sl Inr q have "naturalLoop cfg ev (score c) lp tasks1 ?c3 = Some (r, c')"
      by (simp add: Next_unfold [OF False])
    from naturalLoop_levels [OF this] show ?thesis
      unfolding levelPost_def l3 e3 .
  qed
qed


lemma crossing_math:
  assumes l: "unat l \<le> 56" and sc: "sint sc < 2 ^ 56 * 100"
    and cr: "\<forall>j<k. \<not> sint sc < sint (nextScore (l + of_nat j))"
  shows "unat (l + of_nat k) = unat l + k \<and> unat l + k \<le> 56 \<and>
         (\<forall>m. unat l \<le> m \<and> m < unat l + k \<longrightarrow> 2 ^ m * 100 \<le> sint sc)"
proof -
  have b: "unat l + k \<le> 56" using l sc cr by (rule crossed_bound)
  have u: "unat (l + of_nat k) = unat l + k" using b by (rule unat_add_of_nat64)
  have "\<forall>m. unat l \<le> m \<and> m < unat l + k \<longrightarrow> 2 ^ m * 100 \<le> sint sc"
  proof (intro allI impI)
    fix m assume m: "unat l \<le> m \<and> m < unat l + k"
    define j where "j = m - unat l"
    have j: "j < k" and mj: "m = unat l + j" using m by (auto simp: j_def)
    have "unat l + j \<le> 56" using b j by simp
    then have uj: "unat (l + of_nat j) = unat l + j" by (rule unat_add_of_nat64)
    have "sint (nextScore (l + of_nat j)) = 2 ^ (unat l + j) * 100"
      using nextScore_exact [of "l + of_nat j"] uj \<open>unat l + j \<le> 56\<close> by simp
    moreover have "\<not> sint sc < sint (nextScore (l + of_nat j))" using cr j by blast
    ultimately show "2 ^ m * 100 \<le> sint sc" unfolding mj by linarith
  qed
  with b u show ?thesis by blast
qed

lemma Next_level_math:
  assumes l: "unat (level c) \<le> 56" and sc: "sint (score c) < 2 ^ 56 * 100"
    and n: "Next cfg ev c = Some (r, c')"
  shows "unat (level c) \<le> unat (level c') \<and> unat (level c') \<le> 56 \<and>
         (\<forall>m. unat (level c) \<le> m \<and> m < unat (level c') \<longrightarrow>
              2 ^ m * 100 \<le> sint (score c) \<and> int (ErrorCount c) \<le> AllowErrorMin cfg) \<and>
         (\<forall>tasks. r = Inr tasks \<longrightarrow>
              sint (score c) < 2 ^ unat (level c') * 100 \<or> AllowErrorMin cfg < int (ErrorCount c))"
proof -
  from Next_levels [OF n] obtain k where
    k1: "level c' = level c + of_nat k"
    and k2: "\<forall>j<k. \<not> sint (score c) < sint (nextScore (level c + of_nat j))"
    and k3: "0 < k \<longrightarrow> \<not> AllowErrorMin cfg < int (ErrorCount c)"
    unfolding levelPost_def by auto
  from crossing_math [OF l sc k2] have
    u: "unat (level c') = unat (level c) + k" and b: "unat (level c) + k \<le> 56"
    and m: "\<forall>m. unat (level c) \<le> m \<and> m < unat (level c) + k \<longrightarrow> 2 ^ m * 100 \<le> sint (score c)"
    unfolding k1 by blast+
  have p1: "unat (level c) \<le> unat (level c')" and p2: "unat (level c') \<le> 56"
    using u b by simp_all
  have p3: "\<forall>m. unat (level c) \<le> m \<and> m < unat (level c') \<longrightarrow>
              2 ^ m * 100 \<le> sint (score c) \<and> int (ErrorCount c) \<le> AllowErrorMin cfg"
  proof (intro allI impI)
    fix m assume a: "unat (level c) \<le> m \<and> m < unat (level c')"
    then have "0 < k" using u by simp
    with k3 have "int (ErrorCount c) \<le> AllowErrorMin cfg" by simp
    moreover have "2 ^ m * 100 \<le> sint (score c)" using m a u by simp
    ultimately show "2 ^ m * 100 \<le> sint (score c) \<and> int (ErrorCount c) \<le> AllowErrorMin cfg" by simp
  qed
  have p4: "\<forall>tasks. r = Inr tasks \<longrightarrow>
              sint (score c) < 2 ^ unat (level c') * 100 \<or> AllowErrorMin cfg < int (ErrorCount c)"
  proof (intro allI impI)
    fix tasks assume "r = Inr tasks"
    with n Next_Inr [of cfg ev c tasks c'] have
      "sint (score c) < sint (nextScore (level c')) \<or> AllowErrorMin cfg < int (ErrorCount c)"
      by blast
    then show "sint (score c) < 2 ^ unat (level c') * 100 \<or> AllowErrorMin cfg < int (ErrorCount c)"
      using nextScore_exact [OF p2] by simp
  qed
  from p1 p2 p3 p4 show ?thesis by blast
qed

lemma Next_first_level:
  assumes l: "level c = 0" and sc: "score c = 100"
    and e: "int (ErrorCount c) \<le> AllowErrorMin cfg"
    and n: "Next cfg ev c = Some (Inr tasks, c')"
  shows "level c' = 1 \<and>
         admitted tasks = shareRequests cfg (investors (PurgeInvestor c)) @
           request (AddUsersOnNatural cfg) 2 (latestPrice 5000 (investors (PurgeInvestor c)))"
proof -
  have l56: "unat (level c) \<le> 56" and s56: "sint (score c) < 2 ^ 56 * 100"
    using l sc by simp_all
  from Next_Inr [OF n] obtain k where
    ad: "admitted tasks = shareRequests cfg (investors (PurgeInvestor c)) @
            naturalRequests cfg (latestPrice 5000 (investors (PurgeInvestor c))) (level c) k"
    and k1: "level c' = level c + of_nat k"
    and k2: "\<forall>j<k. \<not> sint (score c) < sint (nextScore (level c + of_nat j))"
    and k7: "sint (score c) < sint (nextScore (level c')) \<or> AllowErrorMin cfg < int (ErrorCount c)"
    by blast
  from crossing_math [OF l56 s56 k2] have
    u: "unat (level c') = k" and b: "k \<le> 56"
    and m: "\<forall>m. m < k \<longrightarrow> 2 ^ m * 100 \<le> sint (score c)"
    unfolding k1 using l by simp_all
  have "sint (score c) < 2 ^ k * 100"
    using k7 e nextScore_exact [of "level c'"] u b by simp
  then have "(100::int) < 2 ^ k * 100" using sc by simp
  then have k0: "k \<noteq> 0" by (cases k) simp_all
  have "\<not> 1 < k"
  proof
    assume "1 < k"
    with m have "2 ^ 1 * 100 \<le> sint (score c)" by blast
    with sc show False by simp
  qed
  with k0 have "k = 1" by simp
  with ad k1 l show ?thesis by simp
qed

text \<open>
  The natural growth where the threshold fits. Whatever a call of \<open>Next\<close> returns, the
  level has risen \<open>k\<close> times for some \<open>k\<close>, and before each rise the score had reached
  the threshold \<open>(1 << level) * 100\<close> of the level left and at most \<open>AllowErrorMin\<close>
  errors were recorded. When \<open>Next\<close> returns a batch, the loop has stopped because the
  score is below the threshold of the level reached or because more than
  \<open>AllowErrorMin\<close> errors are recorded, and after the requests of the shared trades the
  batch admits, for each rise, one request for \<open>AddUsersOnNatural\<close> investors with the
  level reached plus one as unit amount and the latest trade price. The threshold is
  \<open>2^level * 100\<close> for every level up to 56; there, with a score below \<open>2^56 * 100\<close>, the
  level never decreases, every level passed has \<open>2^level * 100 \<le> score\<close>, and \<open>Next\<close>
  returns a batch when every \<open>newClient\<close> succeeds and an investor is left. With more
  than \<open>AllowErrorMin\<close> errors the level stays. With score 100, level 0 and at most
  \<open>AllowErrorMin\<close> errors the level rises exactly once, to 1, with one request of unit
  amount 2.
\<close>

theorem natural_growth:
  "(Next cfg ev c = Some (r, c') \<longrightarrow>
      (\<exists>k. level c' = level c + of_nat k \<and>
           (\<forall>j<k. sint (nextScore (level c + of_nat j)) \<le> sint (score c) \<and>
                   int (ErrorCount c) \<le> AllowErrorMin cfg)) \<and>
      (AllowErrorMin cfg < int (ErrorCount c) \<longrightarrow> level c' = level c)) \<and>
   (Next cfg ev c = Some (Inr tasks, c') \<longrightarrow>
      (\<exists>k. level c' = level c + of_nat k \<and>
           (sint (score c) < sint (nextScore (level c')) \<or> AllowErrorMin cfg < int (ErrorCount c)) \<and>
           admitted tasks = shareRequests cfg (investors (PurgeInvestor c)) @
             concat (map (\<lambda>j. request (AddUsersOnNatural cfg) (level c + of_nat j + 1 + 1)
                                 (latestPrice 5000 (investors (PurgeInvestor c))))
                         [0..<k]))) \<and>
   (\<forall>l. unat l \<le> 56 \<longrightarrow> sint (nextScore l) = 2 ^ unat l * 100) \<and>
   (unat (level c) \<le> 56 \<and> sint (score c) < 2 ^ 56 * 100 \<longrightarrow>
      (Next cfg ev c = Some (r, c') \<longrightarrow>
         unat (level c) \<le> unat (level c') \<and> unat (level c') \<le> 56 \<and>
         (\<forall>m. unat (level c) \<le> m \<and> m < unat (level c') \<longrightarrow>
              2 ^ m * 100 \<le> sint (score c) \<and> int (ErrorCount c) \<le> AllowErrorMin cfg) \<and>
         (\<forall>ts. r = Inr ts \<longrightarrow>
              sint (score c) < 2 ^ unat (level c') * 100 \<or> AllowErrorMin cfg < int (ErrorCount c))) \<and>
      (clientsOK ev \<and> investors (PurgeInvestor c) \<noteq> [] \<longrightarrow>
         (\<exists>ts c2. Next cfg ev c = Some (Inr ts, c2)))) \<and>
   (level c = 0 \<and> score c = 100 \<and> int (ErrorCount c) \<le> AllowErrorMin cfg \<longrightarrow>
      (Next cfg ev c = Some (Inr tasks, c') \<longrightarrow>
         level c' = 1 \<and>
         admitted tasks = shareRequests cfg (investors (PurgeInvestor c)) @
           request (AddUsersOnNatural cfg) 2 (latestPrice 5000 (investors (PurgeInvestor c)))) \<and>
      (clientsOK ev \<and> investors (PurgeInvestor c) \<noteq> [] \<longrightarrow>
         (\<exists>ts c2. Next cfg ev c = Some (Inr ts, c2) \<and> level c2 = 1)))"
proof -
  have c1: "Next cfg ev c = Some (r, c') \<longrightarrow>
      (\<exists>k. level c' = level c + of_nat k \<and>
           (\<forall>j<k. sint (nextScore (level c + of_nat j)) \<le> sint (score c) \<and>
                   int (ErrorCount c) \<le> AllowErrorMin cfg)) \<and>
      (AllowErrorMin cfg < int (ErrorCount c) \<longrightarrow> level c' = level c)"
  proof
    assume n: "Next cfg ev c = Some (r, c')"
    from Next_levels [OF n] obtain k where
      k1: "level c' = level c + of_nat k"
      and k2: "\<forall>j<k. \<not> sint (score c) < sint (nextScore (level c + of_nat j))"
      and k3: "0 < k \<longrightarrow> \<not> AllowErrorMin cfg < int (ErrorCount c)"
      unfolding levelPost_def by auto
    have "\<forall>j<k. sint (nextScore (level c + of_nat j)) \<le> sint (score c) \<and>
                     int (ErrorCount c) \<le> AllowErrorMin cfg"
    proof (intro allI impI)
      fix j assume "j < k"
      with k2 k3 show "sint (nextScore (level c + of_nat j)) \<le> sint (score c) \<and>
                     int (ErrorCount c) \<le> AllowErrorMin cfg"
        by (cases k) auto
    qed
    with k1 have e: "\<exists>k. level c' = level c + of_nat k \<and>
             (\<forall>j<k. sint (nextScore (level c + of_nat j)) \<le> sint (score c) \<and>
                     int (ErrorCount c) \<le> AllowErrorMin cfg)"
      by blast
    have "AllowErrorMin cfg < int (ErrorCount c) \<longrightarrow> level c' = level c"
    proof
      assume "AllowErrorMin cfg < int (ErrorCount c)"
      with k3 have "k = 0" by auto
      with k1 show "level c' = level c" by simp
    qed
    with e show "(\<exists>k. level c' = level c + of_nat k \<and>
           (\<forall>j<k. sint (nextScore (level c + of_nat j)) \<le> sint (score c) \<and>
                   int (ErrorCount c) \<le> AllowErrorMin cfg)) \<and>
      (AllowErrorMin cfg < int (ErrorCount c) \<longrightarrow> level c' = level c)" ..
  qed
  have c2: "Next cfg ev c = Some (Inr tasks, c') \<longrightarrow>
      (\<exists>k. level c' = level c + of_nat k \<and>
           (sint (score c) < sint (nextScore (level c')) \<or> AllowErrorMin cfg < int (ErrorCount c)) \<and>
           admitted tasks = shareRequests cfg (investors (PurgeInvestor c)) @
             concat (map (\<lambda>j. request (AddUsersOnNatural cfg) (level c + of_nat j + 1 + 1)
                                 (latestPrice 5000 (investors (PurgeInvestor c))))
                         [0..<k]))"
  proof
    assume n: "Next cfg ev c = Some (Inr tasks, c')"
    from Next_Inr [OF n] show "\<exists>k. level c' = level c + of_nat k \<and>
           (sint (score c) < sint (nextScore (level c')) \<or> AllowErrorMin cfg < int (ErrorCount c)) \<and>
           admitted tasks = shareRequests cfg (investors (PurgeInvestor c)) @
             concat (map (\<lambda>j. request (AddUsersOnNatural cfg) (level c + of_nat j + 1 + 1)
                                 (latestPrice 5000 (investors (PurgeInvestor c))))
                         [0..<k])"
      unfolding naturalRequests_concat by blast
  qed
  have c3: "\<forall>l. unat l \<le> 56 \<longrightarrow> sint (nextScore l) = 2 ^ unat l * 100"
    using nextScore_exact by blast
  have c4: "unat (level c) \<le> 56 \<and> sint (score c) < 2 ^ 56 * 100 \<longrightarrow>
      (Next cfg ev c = Some (r, c') \<longrightarrow>
         unat (level c) \<le> unat (level c') \<and> unat (level c') \<le> 56 \<and>
         (\<forall>m. unat (level c) \<le> m \<and> m < unat (level c') \<longrightarrow>
              2 ^ m * 100 \<le> sint (score c) \<and> int (ErrorCount c) \<le> AllowErrorMin cfg) \<and>
         (\<forall>ts. r = Inr ts \<longrightarrow>
              sint (score c) < 2 ^ unat (level c') * 100 \<or> AllowErrorMin cfg < int (ErrorCount c))) \<and>
      (clientsOK ev \<and> investors (PurgeInvestor c) \<noteq> [] \<longrightarrow>
         (\<exists>ts c2. Next cfg ev c = Some (Inr ts, c2)))"
    using Next_level_math [of c cfg ev r c'] Next_total [of ev c cfg] by blast
  have c5: "level c = 0 \<and> score c = 100 \<and> int (ErrorCount c) \<le> AllowErrorMin cfg \<longrightarrow>
      (Next cfg ev c = Some (Inr tasks, c') \<longrightarrow>
         level c' = 1 \<and>
         admitted tasks = shareRequests cfg (investors (PurgeInvestor c)) @
           request (AddUsersOnNatural cfg) 2 (latestPrice 5000 (investors (PurgeInvestor c)))) \<and>
      (clientsOK ev \<and> investors (PurgeInvestor c) \<noteq> [] \<longrightarrow>
         (\<exists>ts c2. Next cfg ev c = Some (Inr ts, c2) \<and> level c2 = 1))"
  proof (intro impI conjI)
    assume a: "level c = 0 \<and> score c = 100 \<and> int (ErrorCount c) \<le> AllowErrorMin cfg"
      and n: "Next cfg ev c = Some (Inr tasks, c')"
    from a have l: "level c = 0" and sc: "score c = 100" and e: "int (ErrorCount c) \<le> AllowErrorMin cfg"
      by simp_all
    from Next_first_level [OF l sc e n]
    show "level c' = 1" and "admitted tasks = shareRequests cfg (investors (PurgeInvestor c)) @
             request (AddUsersOnNatural cfg) 2 (latestPrice 5000 (investors (PurgeInvestor c)))"
      by simp_all
  next
    assume a: "level c = 0 \<and> score c = 100 \<and> int (ErrorCount c) \<le> AllowErrorMin cfg"
      and b: "clientsOK ev \<and> investors (PurgeInvestor c) \<noteq> []"
    from a have l: "level c = 0" and sc: "score c = 100" and e: "int (ErrorCount c) \<le> AllowErrorMin cfg"
      by simp_all
    have "unat (level c) \<le> 56" and "sint (score c) < 2 ^ 56 * 100" using l sc by simp_all
    with b obtain ts c2 where n: "Next cfg ev c = Some (Inr ts, c2)"
      using Next_total [of ev c cfg] by blast
    from Next_first_level [OF l sc e n] n
    show "\<exists>ts c2. Next cfg ev c = Some (Inr ts, c2) \<and> level c2 = 1" by blast
  qed
  show ?thesis by (intro conjI c1 c2 c3 c4 c5)
qed

lemma addInvestors_example:
  "addInvestors exampleEnv 3 ua p tasks c =
     (Inr (tasks @ map (\<lambda>i. ExecTask (if odd i
              then NewRandomInvestor \<lparr> clBankID = ''id'', clName = ''name'', clPassword = ''pass'' \<rparr> (p * 1000) 0 ua (p - 2)
              else NewRandomInvestor \<lparr> clBankID = ''id'', clName = ''name'', clPassword = ''pass'' \<rparr> 0 (ua * 100) ua (p + 5))) [0, 1, 2::nat]),
      c\<lparr>newClientCalls := newClientCalls c + 3\<rparr>)"
  by (simp add: addInvestors_def addInvestorsFrom.simps newClient_def exampleEnv_def Let_def)

lemma Next_crosses_three_levels: "\<exists>ts c2. Next exampleConfig exampleEnv (scoredManager 400) = Some (Inr ts, c2) \<and> level c2 = 3"
  apply (simp add: Next_unfold scoredManager_def PurgeInvestor_eq NewManager_def exampleInvestor_def NewRandomInvestor_def
      eligible_def latestPrice_def)
  apply (subst naturalLoop.simps, simp add: nextScore_def ErrorCount_def exampleConfig_def addInvestors_example Let_def)+
  done


lemma scoredManager_purged:
  "investors (PurgeInvestor (scoredManager s)) = [exampleInvestor ''a'' False]"
  by (simp add: PurgeInvestor_eq scoredManager_def NewManager_def exampleInvestor_def)

lemma Next_stays_with_errors:
  "\<exists>ts c2. Next exampleConfig exampleEnv
      ((scoredManager 400)\<lparr>errors := [''e1'', ''e2'', ''e3'', ''e4'', ''e5'', ''e6'']\<rparr>) = Some (Inr ts, c2) \<and>
      level c2 = 0"
  apply (simp add: Next_unfold scoredManager_def PurgeInvestor_eq NewManager_def exampleInvestor_def NewRandomInvestor_def
      eligible_def latestPrice_def)
  apply (subst naturalLoop.simps, simp add: nextScore_def ErrorCount_def exampleConfig_def Let_def)
  done

theorem natural_growth_witness:
  "clientsOK exampleEnv \<and> investors (PurgeInvestor (scoredManager 100)) \<noteq> [] \<and>
   level (scoredManager 100) = 0 \<and> score (scoredManager 100) = 100 \<and>
   int (ErrorCount (scoredManager 100)) \<le> AllowErrorMin exampleConfig \<and>
   unat (level (scoredManager 100)) \<le> 56 \<and> sint (score (scoredManager 100)) < 2 ^ 56 * 100 \<and>
   (\<exists>ts c2. Next exampleConfig exampleEnv (scoredManager 100) = Some (Inr ts, c2) \<and> level c2 = 1) \<and>
   (\<exists>ts c2. Next exampleConfig exampleEnv (scoredManager 400) = Some (Inr ts, c2) \<and> level c2 = 3) \<and>
   AllowErrorMin exampleConfig
     < int (ErrorCount ((scoredManager 400)\<lparr>errors := [''e1'', ''e2'', ''e3'', ''e4'', ''e5'', ''e6'']\<rparr>)) \<and>
   (\<exists>ts c2. Next exampleConfig exampleEnv
      ((scoredManager 400)\<lparr>errors := [''e1'', ''e2'', ''e3'', ''e4'', ''e5'', ''e6'']\<rparr>) = Some (Inr ts, c2) \<and>
      level c2 = 0)"
proof -
  have h2: "investors (PurgeInvestor (scoredManager 100)) \<noteq> []" by (simp add: scoredManager_purged)
  have h3: "level (scoredManager 100) = 0 \<and> score (scoredManager 100) = 100 \<and>
            int (ErrorCount (scoredManager 100)) \<le> AllowErrorMin exampleConfig"
    by (simp add: scoredManager_def NewManager_def ErrorCount_def exampleConfig_def)
  have h4: "unat (level (scoredManager 100)) \<le> 56 \<and> sint (score (scoredManager 100)) < 2 ^ 56 * 100"
    by (simp add: scoredManager_def NewManager_def)
  have h5: "AllowErrorMin exampleConfig
     < int (ErrorCount ((scoredManager 400)\<lparr>errors := [''e1'', ''e2'', ''e3'', ''e4'', ''e5'', ''e6'']\<rparr>))"
    by (simp add: ErrorCount_def exampleConfig_def)
  show ?thesis
    using exampleEnv_ok h2 h3 h4 h5 Next_crosses_three_levels Next_stays_with_errors
      natural_growth [of exampleConfig exampleEnv "scoredManager 100" "Inr []" NewManager "[]"]
    by (simp only: simp_thms)
qed

subsection \<open>Natural growth beyond the 64 bits of the threshold\<close>

lemma nextScore_beyond: "64 \<le> unat l \<Longrightarrow> nextScore l = 0"
proof -
  assume "64 \<le> unat l"
  then have "push_bit (unat l) (1 :: int64) = 0" by (intro push_bit_word_beyond) simp
  then show ?thesis by (simp only: nextScore_def mult_zero_left)
qed

lemma nextScore_le_max: "sint (nextScore l) \<le> 2 ^ 56 * 100"
proof -
  consider "unat l \<le> 56" | "64 \<le> unat l" | "unat l = 57" | "unat l = 58" | "unat l = 59"
    | "unat l = 60" | "unat l = 61" | "unat l = 62" | "unat l = 63"
    by linarith
  then show ?thesis
  proof cases
    case 1
    then have "(2::int) ^ unat l \<le> 2 ^ 56" by (intro power_increasing) simp_all
    then show ?thesis using nextScore_exact [OF 1] by simp
  next
    case 2
    then show ?thesis by (simp add: nextScore_beyond)
  qed (simp_all add: nextScore_def)
qed


lemma naturalLoop_never_returns:
  assumes a: "naturalLoop cfg ev sc lp tasks c = Some y"
  shows "\<not> (clientsOK ev \<and> 2 ^ 56 * 100 \<le> sint sc \<and> int (ErrorCount c) \<le> AllowErrorMin cfg)"
proof (rule naturalLoop.raw_induct [where P = "\<lambda>cfg ev sc lp tasks c y.
    \<not> (clientsOK ev \<and> 2 ^ 56 * 100 \<le> sint sc \<and> int (ErrorCount c) \<le> AllowErrorMin cfg)", OF _ a])
  fix f :: "config \<Rightarrow> env \<Rightarrow> int64 \<Rightarrow> int64 \<Rightarrow> task list \<Rightarrow> manager \<Rightarrow> ((bench_error + task list) \<times> manager) option"
    and cfg :: config and ev :: env and sc lp :: int64 and tasks :: "task list"
    and c :: manager and y :: "(bench_error + task list) \<times> manager"
  assume IH: "\<And>cfg ev sc lp tasks c y. f cfg ev sc lp tasks c = Some y \<Longrightarrow>
    \<not> (clientsOK ev \<and> 2 ^ 56 * 100 \<le> sint sc \<and> int (ErrorCount c) \<le> AllowErrorMin cfg)"
  let ?c2 = "c\<lparr>level := level c + 1, logged := logged c @ [LogNaturalGrowth]\<rparr>"
  assume eq: "(if sint sc < sint (nextScore (level c)) then Some (Inr tasks, c)
          else if AllowErrorMin cfg < int (ErrorCount c)
               then Some (Inr tasks, c)
               else let c1 = c\<lparr>level := level c + 1\<rparr>;
                        c2 = c1\<lparr>logged := logged c1 @ [LogNaturalGrowth]\<rparr>
                    in case addInvestors ev (AddUsersOnNatural cfg)
                             (level c2 + 1) lp tasks c2 of
                       (Inl e, c3) \<Rightarrow> Some (Inl e, c3)
                       | (Inr tasks1, c3) \<Rightarrow> f cfg ev sc lp tasks1 c3) = Some y"
  show "\<not> (clientsOK ev \<and> 2 ^ 56 * 100 \<le> sint sc \<and> int (ErrorCount c) \<le> AllowErrorMin cfg)"
  proof
    assume inv: "clientsOK ev \<and> 2 ^ 56 * 100 \<le> sint sc \<and> int (ErrorCount c) \<le> AllowErrorMin cfg"
    have g1: "\<not> sint sc < sint (nextScore (level c))"
      using inv nextScore_le_max [of "level c"] by linarith
    have g2: "\<not> AllowErrorMin cfg < int (ErrorCount c)" using inv by simp
    from inv addInvestors_total [of ev]
    obtain tasks1 c3 where ai: "addInvestors ev (AddUsersOnNatural cfg) (level c + 1 + 1) lp tasks ?c2 = (Inr tasks1, c3)"
      by blast
    from addInvestors_Inr [OF ai] have "ErrorCount c3 = ErrorCount c" by (simp add: ErrorCount_def)
    with inv have inv3: "clientsOK ev \<and> 2 ^ 56 * 100 \<le> sint sc \<and> int (ErrorCount c3) \<le> AllowErrorMin cfg"
      by simp
    from eq g1 g2 ai have "f cfg ev sc lp tasks1 c3 = Some y" by (simp add: Let_def)
    from IH [OF this] inv3 show False by blast
  qed
qed

lemma Next_never_returns:
  assumes ok: "clientsOK ev" and ne: "investors (PurgeInvestor c) \<noteq> []"
    and sc: "2 ^ 56 * 100 \<le> sint (score c)" and e: "int (ErrorCount c) \<le> AllowErrorMin cfg"
  shows "Next cfg ev c = None"
proof -
  let ?c1 = "PurgeInvestor c"
  let ?invs = "investors ?c1"
  from shareLoop_total [OF ok] obtain tasks1 lp n c2 where
    sl: "shareLoop cfg ev ?invs (startLoop ?invs 2 []) 5000 0 ?c1 = (Inr (tasks1, lp, n), c2)"
    by blast
  let ?c3 = "if n > 0 then c2\<lparr>logged := logged c2 @ [LogAddByShare n]\<rparr> else c2"
  from shareLoop_Inr [OF sl] obtain k2 where "c2 = ?c1\<lparr>newClientCalls := k2\<rparr>" by blast
  then have e3: "ErrorCount ?c3 = ErrorCount c" by (simp add: PurgeInvestor_eq ErrorCount_def)
  have n: "Next cfg ev c = naturalLoop cfg ev (score c) lp tasks1 ?c3"
    using sl by (simp add: Next_unfold [OF ne])
  show ?thesis
  proof (cases "naturalLoop cfg ev (score c) lp tasks1 ?c3")
    case None
    with n show ?thesis by simp
  next
    case (Some y)
    from naturalLoop_never_returns [OF Some] ok sc e e3 show ?thesis by simp
  qed
qed

lemma Next_from_level_57:
  "\<exists>ts c2. Next exampleConfig exampleEnv ((scoredManager 0)\<lparr>level := 57\<rparr>) = Some (Inr ts, c2) \<and>
      level c2 = 59 \<and> length (admitted ts) = 6"
  apply (simp add: Next_unfold scoredManager_def PurgeInvestor_eq NewManager_def exampleInvestor_def NewRandomInvestor_def
      eligible_def latestPrice_def)
  apply (subst naturalLoop.simps, simp add: nextScore_def ErrorCount_def exampleConfig_def addInvestors_example Let_def)+
  done

text \<open>
  Claim C4 fails on the code where the product \<open>(1 << level) * 100\<close> overflows. After
  \<open>AddScore(7205759403792793600)\<close> on a manager with one active investor and no
  error, the score is \<open>2^56 * 100\<close>, which is below \<open>2^57 * 100\<close>: the growth should stop
  at level 57. But no threshold that the code computes is above this score (at level 57
  the product is negative), so the loop finds no level to stop at and \<open>Next\<close> never
  returns. And from level 57 with score 0, where no threshold is reached, the level
  rises to 59 and six investors are admitted.
\<close>

theorem natural_growth_overflow:
  "score overflowManager = 7205759403792793600 \<and> level overflowManager = 0 \<and>
   ErrorCount overflowManager = 0 \<and>
   investors (PurgeInvestor overflowManager) = [exampleInvestor ''a'' False] \<and>
   sint (score overflowManager) < 2 ^ 57 * 100 \<and>
   sint (nextScore 57) < 0 \<and>
   Next exampleConfig exampleEnv overflowManager = None \<and>
   (\<exists>ts c2. Next exampleConfig exampleEnv ((scoredManager 0)\<lparr>level := 57\<rparr>) = Some (Inr ts, c2) \<and>
      level c2 = 59 \<and> length (admitted ts) = 6)"
proof -
  have s: "score overflowManager = 7205759403792793600" and l: "level overflowManager = 0"
    and e: "ErrorCount overflowManager = 0"
    by (simp_all add: overflowManager_def AddScore_def scoredManager_def NewManager_def ErrorCount_def)
  have p: "investors (PurgeInvestor overflowManager) = [exampleInvestor ''a'' False]"
    by (simp add: overflowManager_def AddScore_def PurgeInvestor_eq scoredManager_def NewManager_def
        exampleInvestor_def)
  have m: "sint (score overflowManager) < 2 ^ 57 * 100" unfolding s by simp
  have n57: "sint (nextScore 57) < 0" by (simp add: nextScore_def)
  have "Next exampleConfig exampleEnv overflowManager = None"
  proof (rule Next_never_returns [OF exampleEnv_ok])
    show "investors (PurgeInvestor overflowManager) \<noteq> []" unfolding p by simp
    show "2 ^ 56 * 100 \<le> sint (score overflowManager)" unfolding s by simp
    show "int (ErrorCount overflowManager) \<le> AllowErrorMin exampleConfig"
      unfolding e by (simp add: exampleConfig_def)
  qed
  with s l e p m n57 Next_from_level_57 show ?thesis by (intro conjI)
qed

subsection \<open>The populations that Start and Next admit\<close>

lemma price_of_index: "0 \<le> i \<Longrightarrow> (word_of_int (i sdiv 2) :: int64) = of_nat (nat i div 2)"
proof -
  assume i: "0 \<le> i"
  have "i sdiv 2 = i div 2" using i by (simp add: sdiv_pos_nonneg)
  moreover have "int (nat i div 2) = i div 2" using i by (simp add: zdiv_int)
  ultimately have "i sdiv 2 = int (nat i div 2)" by simp
  then have "(word_of_int (i sdiv 2) :: int64) = word_of_int (int (nat i div 2))" by (rule arg_cong)
  then show ?thesis by (simp only: of_int_of_nat_eq)
qed

lemma startDefault_Inr:
  "startDefault cfg ev i tasks c = (Inr tasks', c') \<Longrightarrow> 0 \<le> i \<Longrightarrow>
   (\<exists>news. tasks' = tasks @ map StartTask news \<and> investors c' = investors c @ news \<and>
            map ivStrategy news = map defaultInvestor [nat i..<nat (DefaultWorkers cfg)])"
proof (induction cfg ev i tasks c rule: startDefault.induct)
  case (1 cfg ev i tasks c)
  show ?case
  proof (cases "i < DefaultWorkers cfg")
    case False
    with "1.prems" show ?thesis
      by (simp add: startDefault.simps [of cfg ev i])
  next
    case True
    let ?c1 = "c\<lparr>newClientCalls := Suc (newClientCalls c)\<rparr>"
    show ?thesis
    proof (cases "envNewClient ev (newClientCalls c)")
      case (Inl m)
      with True "1.prems" show ?thesis
        by (simp add: startDefault.simps [of cfg ev i] newClient_def)
    next
      case (Inr cl)
      define inv where "inv = (if i mod 2 = 1
                         then NewRandomInvestor cl 100000 0 1 (word_of_int (5105 + i sdiv 2))
                         else NewRandomInvestor cl 0 5 1 (word_of_int (5105 + i sdiv 2)))"
      define c2 where "c2 = grantCredit inv ?c1"
      define c3 where "c3 = AddInvestor inv c2"
      have nc: "newClient ev c = (Inr cl, ?c1)" using Inr by (simp add: newClient_def)
      have st: "ivStrategy inv = defaultInvestor (nat i)"
        using "1.prems"(2)
        by (simp add: inv_def defaultInvestor_def NewRandomInvestor_def odd_nat_iff price_of_index)
      have i3: "investors c3 = investors c @ [inv]"
        by (simp add: c3_def c2_def AddInvestor_def grantCredit_def)
      have rec: "startDefault cfg ev (i + 1) (tasks @ [StartTask inv]) c3 = (Inr tasks', c')"
        using "1.prems"(1) True nc
        by (simp add: startDefault.simps [of cfg ev i] inv_def c2_def c3_def Let_def)
      have "0 \<le> i + 1" using "1.prems"(2) by simp
      from "1.IH" [OF True nc [symmetric] refl inv_def c2_def c3_def rec this]
      obtain news where n: "tasks' = (tasks @ [StartTask inv]) @ map StartTask news"
        "investors c' = investors c3 @ news"
        "map ivStrategy news = map defaultInvestor [nat (i + 1)..<nat (DefaultWorkers cfg)]"
        by blast
      have "tasks' = tasks @ map StartTask (inv # news) \<and>
            investors c' = investors c @ (inv # news) \<and>
            map ivStrategy (inv # news) = map defaultInvestor [nat i..<nat (DefaultWorkers cfg)]"
        using n st i3 "1.prems"(2) True
        by (simp add: upt_nat_step [of i "DefaultWorkers cfg"])
      then show ?thesis by blast
    qed
  qed
qed


lemma startDefault_total:
  "clientsOK ev \<Longrightarrow> \<exists>tasks' c'. startDefault cfg ev i tasks c = (Inr tasks', c')"
proof (induction cfg ev i tasks c rule: startDefault.induct)
  case (1 cfg ev i tasks c)
  show ?case
  proof (cases "i < DefaultWorkers cfg")
    case False
    then show ?thesis by (simp add: startDefault.simps [of cfg ev i])
  next
    case True
    let ?c1 = "c\<lparr>newClientCalls := Suc (newClientCalls c)\<rparr>"
    from "1.prems" obtain cl where Inr: "envNewClient ev (newClientCalls c) = Inr cl"
      unfolding clientsOK_def by blast
    define inv where "inv = (if i mod 2 = 1
                       then NewRandomInvestor cl 100000 0 1 (word_of_int (5105 + i sdiv 2))
                       else NewRandomInvestor cl 0 5 1 (word_of_int (5105 + i sdiv 2)))"
    define c2 where "c2 = grantCredit inv ?c1"
    define c3 where "c3 = AddInvestor inv c2"
    have nc: "newClient ev c = (Inr cl, ?c1)" using Inr by (simp add: newClient_def)
    have "startDefault cfg ev i tasks c = startDefault cfg ev (i + 1) (tasks @ [StartTask inv]) c3"
      using True nc by (simp add: startDefault.simps [of cfg ev i] inv_def c2_def c3_def Let_def)
    with "1.IH" [OF True nc [symmetric] refl inv_def c2_def c3_def "1.prems"]
    show ?thesis by simp
  qed
qed

lemma startBruteForce_Inr:
  "startBruteForce cfg ev i tasks c = (Inr tasks', c') \<Longrightarrow> 0 \<le> i \<Longrightarrow>
   (\<exists>news. tasks' = tasks @ map StartTask news \<and> investors c' = investors c @ news \<and>
            map ivStrategy news = map (\<lambda>j. BruteForceInvestor) [nat i..<nat (BruteForceWorkers cfg)])"
proof (induction cfg ev i tasks c rule: startBruteForce.induct)
  case (1 cfg ev i tasks c)
  show ?case
  proof (cases "i < BruteForceWorkers cfg")
    case False
    with "1.prems" show ?thesis
      by (simp add: startBruteForce.simps [of cfg ev i])
  next
    case True
    show ?thesis
    proof (cases "0 \<le> i \<and> i < int (length accounts)")
      case False
      with True "1.prems" show ?thesis
        by (simp add: startBruteForce.simps [of cfg ev i])
    next
      case inr: True
      show ?thesis
      proof (cases "envBruteClient ev (accounts ! nat i)")
        case (Inl m)
        with True inr "1.prems" show ?thesis
          by (simp add: startBruteForce.simps [of cfg ev i])
      next
        case (Inr cl)
        define inv where "inv = NewBruteForceInvestor cl"
        define c1 where "c1 = AddInvestor inv c"
        have st: "ivStrategy inv = BruteForceInvestor"
          by (simp add: inv_def NewBruteForceInvestor_def)
        have i1: "investors c1 = investors c @ [inv]" by (simp add: c1_def AddInvestor_def)
        have rec: "startBruteForce cfg ev (i + 1) (tasks @ [StartTask inv]) c1 = (Inr tasks', c')"
          using "1.prems"(1) True inr Inr
          by (simp add: startBruteForce.simps [of cfg ev i] inv_def c1_def Let_def)
        have "0 \<le> i + 1" using "1.prems"(2) by simp
        from "1.IH" [OF True inr Inr inv_def c1_def rec this]
        obtain news where n: "tasks' = (tasks @ [StartTask inv]) @ map StartTask news"
          "investors c' = investors c1 @ news"
          "map ivStrategy news = map (\<lambda>j. BruteForceInvestor) [nat (i + 1)..<nat (BruteForceWorkers cfg)]"
          by blast
        have "tasks' = tasks @ map StartTask (inv # news) \<and>
              investors c' = investors c @ (inv # news) \<and>
              map ivStrategy (inv # news) = map (\<lambda>j. BruteForceInvestor) [nat i..<nat (BruteForceWorkers cfg)]"
          using n st i1 "1.prems"(2) True
          by (simp add: upt_nat_step [of i "BruteForceWorkers cfg"])
        then show ?thesis by blast
      qed
    qed
  qed
qed

lemma startBruteForce_total:
  "clientsOK ev \<Longrightarrow> 0 \<le> i \<Longrightarrow> BruteForceWorkers cfg \<le> 4 \<Longrightarrow>
   \<exists>tasks' c'. startBruteForce cfg ev i tasks c = (Inr tasks', c')"
proof (induction cfg ev i tasks c rule: startBruteForce.induct)
  case (1 cfg ev i tasks c)
  show ?case
  proof (cases "i < BruteForceWorkers cfg")
    case False
    then show ?thesis by (simp add: startBruteForce.simps [of cfg ev i])
  next
    case True
    with "1.prems" have inr: "0 \<le> i \<and> i < int (length accounts)" by (simp add: accounts_def)
    from "1.prems"(1) obtain cl where Inr: "envBruteClient ev (accounts ! nat i) = Inr cl"
      unfolding clientsOK_def by blast
    define inv where "inv = NewBruteForceInvestor cl"
    define c1 where "c1 = AddInvestor inv c"
    have "startBruteForce cfg ev i tasks c = startBruteForce cfg ev (i + 1) (tasks @ [StartTask inv]) c1"
      using True inr Inr by (simp add: startBruteForce.simps [of cfg ev i] inv_def c1_def Let_def)
    moreover have "0 \<le> i + 1" using "1.prems"(2) by simp
    ultimately show ?thesis
      using "1.IH" [OF True inr Inr inv_def c1_def "1.prems"(1) _ "1.prems"(3)] by simp
  qed
qed

lemma startedBy_StartTask: "startedBy (map StartTask xs) = xs"
  by (induction xs) simp_all

lemma Start_Inr:
  assumes "Start cfg ev c = (Inr tasks, c')"
  shows "map ivStrategy (startedBy tasks) =
           map defaultInvestor [0..<nat (DefaultWorkers cfg)] @
           replicate (nat (BruteForceWorkers cfg)) BruteForceInvestor \<and>
         tasks = map StartTask (startedBy tasks) \<and>
         investors c' = investors c @ startedBy tasks"
proof -
  obtain r1 c1 where sd: "startDefault cfg ev 0 [] c = (r1, c1)"
    by (cases "startDefault cfg ev 0 [] c")
  show ?thesis
  proof (cases r1)
    case (Inl e)
    with assms sd show ?thesis by (simp add: Start_def)
  next
    case (Inr tasks1)
    with assms sd have sb: "startBruteForce cfg ev 0 tasks1 c1 = (Inr tasks, c')"
      by (simp add: Start_def)
    from startDefault_Inr [OF sd [unfolded Inr]] obtain n1 where
      d: "tasks1 = map StartTask n1" "investors c1 = investors c @ n1"
         "map ivStrategy n1 = map defaultInvestor [0..<nat (DefaultWorkers cfg)]"
      by auto
    from startBruteForce_Inr [OF sb] obtain n2 where
      b: "tasks = tasks1 @ map StartTask n2" "investors c' = investors c1 @ n2"
         "map ivStrategy n2 = map (\<lambda>j. BruteForceInvestor) [0..<nat (BruteForceWorkers cfg)]"
      by auto
    have t: "tasks = map StartTask (n1 @ n2)" using d(1) b(1) by simp
    have s: "startedBy tasks = n1 @ n2" unfolding t by (rule startedBy_StartTask)
    show ?thesis
      using d b t unfolding s by (simp add: map_replicate_const)
  qed
qed

lemma Start_total:
  assumes "clientsOK ev" and "BruteForceWorkers cfg \<le> 4"
  shows "\<exists>tasks c'. Start cfg ev c = (Inr tasks, c')"
proof -
  from startDefault_total [OF assms(1)] obtain tasks1 c1 where
    "startDefault cfg ev 0 [] c = (Inr tasks1, c1)" by blast
  moreover from startBruteForce_total [OF assms(1) _ assms(2)] obtain tasks c' where
    "startBruteForce cfg ev 0 tasks1 c1 = (Inr tasks, c')" by blast
  ultimately show ?thesis by (simp add: Start_def)
qed

text \<open>
  Claim C5, as the code has it. In the default population of \<open>Start\<close> and in every
  admission request of \<open>Next\<close> the construction alternates with the index, the other way
  round: the investor at an odd index is the buyer, seeded with credit (100000 in \<open>Start\<close>,
  a thousand times the price in \<open>Next\<close>) and no inventory, and the investor at an even index
  is the seller, seeded with inventory (5 in \<open>Start\<close>, a hundred times the unit amount in
  \<open>Next\<close>) and no credit. In \<open>Next\<close> the buyer bids 2 below the requested price and the
  seller asks 5 above it; in \<open>Start\<close> both take the base price 5105 plus half their index.
  \<open>Start\<close> starts the default investors in this order and then the brute-force
  investors, and admits them to the registry; it returns them when every client can be
  built and there are at most four brute-force investors.
\<close>

theorem admission_parity:
  "(Start cfg ev c = (Inr tasks, c') \<longrightarrow>
      map ivStrategy (startedBy tasks) =
        map defaultInvestor [0..<nat (DefaultWorkers cfg)] @
        replicate (nat (BruteForceWorkers cfg)) BruteForceInvestor \<and>
      tasks = map StartTask (startedBy tasks) \<and>
      investors c' = investors c @ startedBy tasks) \<and>
   (clientsOK ev \<and> BruteForceWorkers cfg \<le> 4 \<longrightarrow> (\<exists>ts c2. Start cfg ev c = (Inr ts, c2))) \<and>
   (addInvestors ev num ua p tasks0 c = (Inr tasks1, c1) \<longrightarrow>
      admitted tasks1 = admitted tasks0 @ map (\<lambda>i. requested i ua p) [0..<nat num]) \<and>
   seededCredit (defaultInvestor i) = (if odd i then 100000 else 0) \<and>
   seededIsu (defaultInvestor i) = (if odd i then 0 else 5) \<and>
   unitAmount (defaultInvestor i) = 1 \<and>
   unitPrice (defaultInvestor i) = 5105 + of_nat (i div 2) \<and>
   seededCredit (requested i ua p) = (if odd i then p * 1000 else 0) \<and>
   seededIsu (requested i ua p) = (if odd i then 0 else ua * 100) \<and>
   unitAmount (requested i ua p) = ua \<and>
   unitPrice (requested i ua p) = (if odd i then p - 2 else p + 5)"
proof -
  have a: "Start cfg ev c = (Inr tasks, c') \<longrightarrow>
      map ivStrategy (startedBy tasks) =
        map defaultInvestor [0..<nat (DefaultWorkers cfg)] @
        replicate (nat (BruteForceWorkers cfg)) BruteForceInvestor \<and>
      tasks = map StartTask (startedBy tasks) \<and>
      investors c' = investors c @ startedBy tasks"
    using Start_Inr [of cfg ev c tasks c'] by blast
  have b: "clientsOK ev \<and> BruteForceWorkers cfg \<le> 4 \<longrightarrow> (\<exists>ts c2. Start cfg ev c = (Inr ts, c2))"
    using Start_total [of ev cfg c] by blast
  have d: "addInvestors ev num ua p tasks0 c = (Inr tasks1, c1) \<longrightarrow>
      admitted tasks1 = admitted tasks0 @ map (\<lambda>i. requested i ua p) [0..<nat num]"
    using addInvestors_Inr [of ev num ua p tasks0 c tasks1 c1] by (simp add: request_def)
  show ?thesis
    by (intro conjI a b d) (simp_all add: defaultInvestor_def requested_def)
qed

lemma upt_4: "[0..<4] = [0, 1, 2, 3]"
  by (simp add: upt_conv_Cons)

lemma upt_2: "[0..<2] = [0, 1]"
  by (simp add: upt_conv_Cons)

lemma defaultPopulation_example:
  "map defaultInvestor [0..<nat (DefaultWorkers exampleConfig)] @
   replicate (nat (BruteForceWorkers exampleConfig)) BruteForceInvestor =
   [RandomInvestor 0 5 1 5105, RandomInvestor 100000 0 1 5105,
    RandomInvestor 0 5 1 5106, RandomInvestor 100000 0 1 5106,
    BruteForceInvestor, BruteForceInvestor]"
proof -
  have n: "nat (DefaultWorkers exampleConfig) = 4" "nat (BruteForceWorkers exampleConfig) = Suc (Suc 0)"
    by (simp_all add: exampleConfig_def)
  have d: "defaultInvestor 0 = RandomInvestor 0 5 1 5105"
    "defaultInvestor (Suc 0) = RandomInvestor 100000 0 1 5105"
    "defaultInvestor 2 = RandomInvestor 0 5 1 5106"
    "defaultInvestor 3 = RandomInvestor 100000 0 1 5106"
    by (simp_all add: defaultInvestor_def)
  show ?thesis unfolding n upt_4 by (simp add: d)
qed

lemma request_example:
  "map (\<lambda>i. requested i 10 5000) [0..<nat 2] =
   [RandomInvestor 0 1000 10 5005, RandomInvestor 5000000 0 10 4998]"
  by (simp add: upt_2 requested_def)

theorem admission_parity_witness:
  "clientsOK exampleEnv \<and> BruteForceWorkers exampleConfig \<le> 4 \<and>
   (\<exists>ts c2. Start exampleConfig exampleEnv NewManager = (Inr ts, c2) \<and>
      map ivStrategy (startedBy ts) =
        [RandomInvestor 0 5 1 5105, RandomInvestor 100000 0 1 5105,
         RandomInvestor 0 5 1 5106, RandomInvestor 100000 0 1 5106,
         BruteForceInvestor, BruteForceInvestor])"
proof -
  have h: "BruteForceWorkers exampleConfig \<le> 4" by (simp add: exampleConfig_def)
  from admission_parity [of exampleConfig exampleEnv NewManager "[]" NewManager 0 0 0 "[]" "[]" NewManager 0]
    exampleEnv_ok h
  obtain ts c2 where s: "Start exampleConfig exampleEnv NewManager = (Inr ts, c2)" by blast
  from admission_parity [of exampleConfig exampleEnv NewManager ts c2 0 0 0 "[]" "[]" NewManager 0] s
  have "map ivStrategy (startedBy ts) =
        map defaultInvestor [0..<nat (DefaultWorkers exampleConfig)] @
        replicate (nat (BruteForceWorkers exampleConfig)) BruteForceInvestor"
    by blast
  then have m: "map ivStrategy (startedBy ts) =
        [RandomInvestor 0 5 1 5105, RandomInvestor 100000 0 1 5105,
         RandomInvestor 0 5 1 5106, RandomInvestor 100000 0 1 5106,
         BruteForceInvestor, BruteForceInvestor]"
    unfolding defaultPopulation_example .
  from s m have "\<exists>ts c2. Start exampleConfig exampleEnv NewManager = (Inr ts, c2) \<and>
      map ivStrategy (startedBy ts) =
        [RandomInvestor 0 5 1 5105, RandomInvestor 100000 0 1 5105,
         RandomInvestor 0 5 1 5106, RandomInvestor 100000 0 1 5106,
         BruteForceInvestor, BruteForceInvestor]"
    by (intro exI [of _ ts] exI [of _ c2] conjI)
  with exampleEnv_ok h show ?thesis by (intro conjI)
qed

text \<open>
  The claim C5 as it is stated fails: at the even index 0 the default population of
  \<open>Start\<close> and an admission request of \<open>Next\<close> build an investor with inventory and
  no credit.
\<close>

theorem even_index_holds_inventory:
  "(\<exists>ts c2. Start exampleConfig exampleEnv NewManager = (Inr ts, c2) \<and>
      map ivStrategy (startedBy ts) ! 0 = RandomInvestor 0 5 1 5105 \<and>
      \<not> specParity 0 (take 4 (map ivStrategy (startedBy ts)))) \<and>
   (\<exists>ts c2. addInvestors exampleEnv 2 10 5000 [] NewManager = (Inr ts, c2) \<and>
      admitted ts = [RandomInvestor 0 1000 10 5005, RandomInvestor 5000000 0 10 4998] \<and>
      \<not> specParity 0 (admitted ts)) \<and>
   seededCredit (RandomInvestor 0 5 1 5105) = 0 \<and> seededIsu (RandomInvestor 0 5 1 5105) = 5"
proof -
  have h: "BruteForceWorkers exampleConfig \<le> 4" by (simp add: exampleConfig_def)
  from Start_total [OF exampleEnv_ok h]
  obtain ts c2 where s: "Start exampleConfig exampleEnv NewManager = (Inr ts, c2)" by blast
  from Start_Inr [OF s] have m: "map ivStrategy (startedBy ts) =
        [RandomInvestor 0 5 1 5105, RandomInvestor 100000 0 1 5105,
         RandomInvestor 0 5 1 5106, RandomInvestor 100000 0 1 5106,
         BruteForceInvestor, BruteForceInvestor]"
    unfolding defaultPopulation_example by blast
  have a1: "map ivStrategy (startedBy ts) ! 0 = RandomInvestor 0 5 1 5105"
    and a2: "\<not> specParity 0 (take 4 (map ivStrategy (startedBy ts)))"
    unfolding m by simp_all
  have a: "\<exists>ts c2. Start exampleConfig exampleEnv NewManager = (Inr ts, c2) \<and>
      map ivStrategy (startedBy ts) ! 0 = RandomInvestor 0 5 1 5105 \<and>
      \<not> specParity 0 (take 4 (map ivStrategy (startedBy ts)))"
    using s a1 a2 by (intro exI [of _ ts] exI [of _ c2] conjI)
  from addInvestors_total [OF exampleEnv_ok]
  obtain ts' c2' where ai: "addInvestors exampleEnv 2 10 5000 [] NewManager = (Inr ts', c2')" by blast
  from addInvestors_Inr [OF ai] have m': "admitted ts' = [RandomInvestor 0 1000 10 5005, RandomInvestor 5000000 0 10 4998]"
    using request_example by (simp add: request_def)
  have b2: "\<not> specParity 0 (admitted ts')" unfolding m' by simp
  have b: "\<exists>ts c2. addInvestors exampleEnv 2 10 5000 [] NewManager = (Inr ts, c2) \<and>
      admitted ts = [RandomInvestor 0 1000 10 5005, RandomInvestor 5000000 0 10 4998] \<and>
      \<not> specParity 0 (admitted ts)"
    using ai m' b2 by (intro exI [of _ ts'] exI [of _ c2'] conjI)
  show ?thesis using a b by simp
qed

end
